theory Spec2Isabelle
  imports Complex_Main "HOL-Library.Sublist"
begin

section \<open>Data model of LoadInjector.py\<close>

text \<open>
  The module defines a base class \<open>LoadInjector\<close> and two subclasses,
  \<open>SSDLoadInjector\<close> and \<open>RAMLoadInjector\<close>. An instance carries the fields set
  by \<open>LoadInjector.__init__\<close>. The constructor's annotations give the field types:
  \<open>tag: str\<close> and \<open>duration_ms: float\<close>, which admits Python's ints (the default
  \<open>1000\<close> is one) and floats. Timestamps are the integers
  \<open>round(time.time() * 1000)\<close>.

  The ledger \<open>self.injected_interval\<close> is a Python list object. The attribute holds a
  reference to it, so the lists live in an explicit store and the record holds the
  address.
\<close>

record interval =
  iv_start :: int
  iv_end :: int

type_synonym ref = nat

record store =
  cells :: "ref \<Rightarrow> interval list"
  next_ref :: ref

text \<open>The expression \<open>[]\<close>: a new, empty list object.\<close>

definition new_list :: "store \<Rightarrow> ref \<times> store" where
  "new_list h = (next_ref h, h\<lparr>cells := (cells h)(next_ref h := []), next_ref := Suc (next_ref h)\<rparr>)"

text \<open>\<open>lst.append(x)\<close> through a reference to the list.\<close>

definition list_append :: "ref \<Rightarrow> interval \<Rightarrow> store \<Rightarrow> store" where
  "list_append r x h = h\<lparr>cells := (cells h)(r := cells h r @ [x])\<rparr>"

text \<open>\<open>del lst[:]\<close> through a reference, one of the mutations a holder of the list can do.\<close>

definition list_clear :: "ref \<Rightarrow> store \<Rightarrow> store" where
  "list_clear r h = h\<lparr>cells := (cells h)(r := [])\<rparr>"

definition empty_store :: store where
  "empty_store = \<lparr>cells = (\<lambda>_. []), next_ref = 0\<rparr>"

text \<open>The dynamic class of an instance decides which overriding method runs.\<close>

datatype cls = LoadInjector_cls | SSDLoadInjector_cls | RAMLoadInjector_cls

text \<open>
  A duration is a Python number: an int, or a float. A float is taken by its value, a
  real number (the floats that are not numbers, \<open>nan\<close> and the infinities, are left
  out). \<open>num_val\<close> is the value a comparison with an int goes by: Python compares an
  int and a float exactly.
\<close>

datatype number = PyInt int | PyFloat real

fun num_val :: "number \<Rightarrow> real" where
  "num_val (PyInt i) = of_int i"
| "num_val (PyFloat x) = x"

record injector =
  cls_of :: cls
  valid :: bool
  tag :: string
  duration_ms :: number
  inj_thread :: "nat option"
  completed_flag :: bool
  injected_interval :: ref

subsection \<open>Constructors\<close>

text \<open>\<open>init()\<close> is the setup hook; no class of the module overrides it (\<open>pass\<close>).\<close>

definition init :: "injector \<Rightarrow> injector" where
  "init self = self"

definition LoadInjector_init :: "cls \<Rightarrow> string \<Rightarrow> number \<Rightarrow> store \<Rightarrow> injector \<times> store" where
  "LoadInjector_init c tg d h =
     (let (r, h') = new_list h in
      (init \<lparr>cls_of = c, valid = True, tag = tg, duration_ms = d, inj_thread = None,
             completed_flag = True, injected_interval = r\<rparr>, h'))"

definition LoadInjector :: "string \<Rightarrow> number \<Rightarrow> store \<Rightarrow> injector \<times> store" where
  "LoadInjector tg d h = LoadInjector_init LoadInjector_cls tg d h"

definition SSDLoadInjector :: "string \<Rightarrow> number \<Rightarrow> store \<Rightarrow> injector \<times> store" where
  "SSDLoadInjector tg d h = LoadInjector_init SSDLoadInjector_cls tg d h"

definition RAMLoadInjector :: "string \<Rightarrow> number \<Rightarrow> store \<Rightarrow> injector \<times> store" where
  "RAMLoadInjector tg d h = LoadInjector_init RAMLoadInjector_cls tg d h"

subsection \<open>Accessors\<close>

definition is_valid :: "injector \<Rightarrow> bool" where
  "is_valid self = valid self"

definition is_injector_running :: "injector \<Rightarrow> bool" where
  "is_injector_running self = (\<not> completed_flag self)"

text \<open>\<open>return self.injected_interval\<close>: the value returned is the attribute's reference.\<close>

definition get_injections :: "injector \<Rightarrow> ref" where
  "get_injections self = injected_interval self"

text \<open>What a holder of a reference reads through it.\<close>

definition deref :: "store \<Rightarrow> ref \<Rightarrow> interval list" where
  "deref h r = cells h r"

subsection \<open>\<open>str\<close> of a number and \<open>get_name\<close>\<close>

text \<open>\<open>str\<close> of an int: its decimal digits, after a minus sign when it is negative.\<close>

definition digit_char :: "nat \<Rightarrow> char" where
  "digit_char n = ''0123456789'' ! n"

fun str_nat :: "nat \<Rightarrow> string" where
  "str_nat n = (if n < 10 then [digit_char n] else str_nat (n div 10) @ [digit_char (n mod 10)])"

declare str_nat.simps [simp del]

definition str_int :: "int \<Rightarrow> string" where
  "str_int i = (if i < 0 then CHR ''-'' # str_nat (nat (- i)) else str_nat (nat i))"

text \<open>
  \<open>str\<close> of a float is the interpreter's own: the shortest digits that read back as
  the same float. It is no part of the module, so the methods that call \<open>str\<close> take it
  as the parameter \<open>float_str\<close>. \<open>str\<close> looks at the type of its argument.
\<close>

fun str_number :: "(real \<Rightarrow> string) \<Rightarrow> number \<Rightarrow> string" where
  "str_number float_str (PyInt i) = str_int i"
| "str_number float_str (PyFloat x) = float_str x"

text \<open>
  What \<open>str\<close> returns on a float whose value is a whole number of fewer than 17
  digits: the digits of the whole number, then \<open>.0\<close> (\<open>str(500.0)\<close> is \<open>500.0\<close>). The
  definition is meant for such values only.
\<close>

definition float_str_whole :: "real \<Rightarrow> string" where
  "float_str_whole x = str_int \<lfloor>x\<rfloor> @ ''.0''"

definition get_name :: "(real \<Rightarrow> string) \<Rightarrow> injector \<Rightarrow> string" where
  "get_name float_str self =
     (case cls_of self of
        LoadInjector_cls \<Rightarrow>
          ''['' @ tag self @ '']Injector'' @ ''(d'' @ str_number float_str (duration_ms self) @ '')''
      | SSDLoadInjector_cls \<Rightarrow>
          ''['' @ tag self @ '']SSDLoadInjector(d'' @ str_number float_str (duration_ms self) @ '')''
      | RAMLoadInjector_cls \<Rightarrow>
          ''['' @ tag self @ '']RAMLoadInjector(d'' @ str_number float_str (duration_ms self) @ '')'')"

text \<open>
  What it is for a string to be the decimal numeral of an integer, said without
  \<open>str_int\<close>: digits only, no leading zero but for \<open>0\<close> itself, a minus sign in front
  exactly when the integer is negative, and the digits read in base ten give the
  integer's magnitude.
\<close>

definition is_digit :: "char \<Rightarrow> bool" where
  "is_digit c = (c \<in> set ''0123456789'')"

definition digit_val :: "char \<Rightarrow> nat" where
  "digit_val c = of_char c - 48"

definition decimal_value :: "string \<Rightarrow> nat" where
  "decimal_value ds = foldl (\<lambda>a c. 10 * a + digit_val c) 0 ds"

definition canonical_digits :: "string \<Rightarrow> bool" where
  "canonical_digits ds =
     (ds \<noteq> [] \<and> list_all is_digit ds \<and> (ds = ''0'' \<or> hd ds \<noteq> CHR ''0''))"

definition decimal_numeral_of :: "int \<Rightarrow> string \<Rightarrow> bool" where
  "decimal_numeral_of i s =
     (if i < 0
      then s \<noteq> [] \<and> hd s = CHR ''-'' \<and> canonical_digits (tl s) \<and> int (decimal_value (tl s)) = - i
      else canonical_digits s \<and> int (decimal_value s) = i)"

subsection \<open>Job descriptions and the \<open>fromJSON\<close> class methods\<close>

text \<open>
  A job is a dictionary read for three keys. Each field is \<open>None\<close> when the key is not
  in the dictionary; the values have the types the constructor is annotated with (a
  string, a number), and \<open>type\<close> holds a string, as the sets it is looked up in do.
\<close>

record job =
  job_type :: "string option"
  job_tag :: "string option"
  job_duration_ms :: "number option"

definition SSD_fromJSON :: "job \<Rightarrow> store \<Rightarrow> injector \<times> store" where
  "SSD_fromJSON j h =
     SSDLoadInjector (case job_tag j of Some t \<Rightarrow> t | None \<Rightarrow> '''')
                     (case job_duration_ms j of Some d \<Rightarrow> d | None \<Rightarrow> PyInt 1000) h"

definition RAM_fromJSON :: "job \<Rightarrow> store \<Rightarrow> injector \<times> store" where
  "RAM_fromJSON j h =
     RAMLoadInjector (case job_tag j of Some t \<Rightarrow> t | None \<Rightarrow> '''')
                     (case job_duration_ms j of Some d \<Rightarrow> d | None \<Rightarrow> PyInt 1000) h"

text \<open>\<open>LoadInjector.fromJSON\<close>; the argument \<open>None\<close> is Python's \<open>None\<close>.\<close>

definition fromJSON :: "job option \<Rightarrow> store \<Rightarrow> injector option \<times> store" where
  "fromJSON jb h =
     (case jb of
        None \<Rightarrow> (None, h)
      | Some j \<Rightarrow>
          (case job_type j of
             None \<Rightarrow> (None, h)
           | Some t \<Rightarrow>
               if t \<in> {''SSD'', ''SSDUsage'', ''SolidStateDrive''}
               then (let (inj, h') = SSD_fromJSON j h in (Some inj, h'))
               else if t \<in> {''RAM'', ''RAMUsage'', ''Memory''}
               then (let (inj, h') = RAM_fromJSON j h in (Some inj, h'))
               else (None, h)))"

section \<open>The work body\<close>

subsection \<open>Run without interruption\<close>

text \<open>
  \<open>current_ms()\<close> reads the wall clock. A run of \<open>inject_body\<close> is taken against
  the list of values that its successive calls of \<open>current_ms()\<close> return, in order. The
  two \<open>time.sleep(random.random() * 0.01)\<close> calls of an iteration assign no variable:
  all they do is let time pass, which the next reading shows. A run that needs more
  readings than the list holds has not returned: the result is \<open>None\<close>.
\<close>

text \<open>
  \<open>while current_ms() - start_time < self.duration_ms\<close>: every test takes one reading;
  the result is what is left of the readings when the test fails.
\<close>

fun while_loop :: "int \<Rightarrow> number \<Rightarrow> int list \<Rightarrow> int list option" where
  "while_loop start_time d [] = None"
| "while_loop start_time d (c # cs) =
     (if of_int (c - start_time) < num_val d then while_loop start_time d cs else Some cs)"

definition SSD_inject_body :: "int list \<Rightarrow> injector \<Rightarrow> store \<Rightarrow> (injector \<times> store \<times> int list) option" where
  "SSD_inject_body clock self h =
     (let self1 = self\<lparr>completed_flag := False\<rparr> in
      case clock of
        [] \<Rightarrow> None
      | start_time # cs \<Rightarrow>
          (case while_loop start_time (duration_ms self1) cs of
             None \<Rightarrow> None
           | Some [] \<Rightarrow> None
           | Some (e # rest) \<Rightarrow>
               Some (self1\<lparr>completed_flag := True\<rparr>,
                     list_append (injected_interval self1) \<lparr>iv_start = start_time, iv_end = e\<rparr> h,
                     rest)))"

definition RAM_inject_body :: "int list \<Rightarrow> injector \<Rightarrow> store \<Rightarrow> (injector \<times> store \<times> int list) option" where
  "RAM_inject_body clock self h =
     (let self1 = self\<lparr>completed_flag := False\<rparr> in
      case clock of
        [] \<Rightarrow> None
      | start_time # cs \<Rightarrow>
          (case while_loop start_time (duration_ms self1) cs of
             None \<Rightarrow> None
           | Some [] \<Rightarrow> None
           | Some (e # rest) \<Rightarrow>
               Some (self1\<lparr>completed_flag := True\<rparr>,
                     list_append (injected_interval self1) \<lparr>iv_start = start_time, iv_end = e\<rparr> h,
                     rest)))"

text \<open>\<open>self.inject_body\<close>: the base class's body is \<open>pass\<close>.\<close>

definition inject_body :: "int list \<Rightarrow> injector \<Rightarrow> store \<Rightarrow> (injector \<times> store \<times> int list) option" where
  "inject_body clock self h =
     (case cls_of self of
        LoadInjector_cls \<Rightarrow> Some (self, h, clock)
      | SSDLoadInjector_cls \<Rightarrow> SSD_inject_body clock self h
      | RAMLoadInjector_cls \<Rightarrow> RAM_inject_body clock self h)"

text \<open>
  The readings the loop's test consumed, the last one being the reading that ended the
  loop. One iteration lies between two consecutive tests.
\<close>

fun loop_checks :: "int \<Rightarrow> number \<Rightarrow> int list \<Rightarrow> int list" where
  "loop_checks start_time d [] = []"
| "loop_checks start_time d (c # cs) =
     (if of_int (c - start_time) < num_val d then c # loop_checks start_time d cs else [c])"

text \<open>
  The time each iteration took, and the largest of them (\<open>0\<close> when no iteration ran):
  the quantities the bound on the overshoot is stated with.
\<close>

definition iteration_increments :: "int list \<Rightarrow> int list" where
  "iteration_increments chk = map (\<lambda>(a, b). b - a) (zip chk (tl chk))"

definition largest_increment :: "int list \<Rightarrow> int" where
  "largest_increment chk = fold max (iteration_increments chk) 0"

subsection \<open>Threads\<close>

text \<open>
  \<open>inject()\<close> runs the body on a new thread, so bodies interleave with each other and
  with the caller, statement by statement. A frame is the statement a thread executes
  next, with the locals that are bound there (\<open>start_time\<close>, and the reading taken for
  \<open>'end'\<close> before the \<open>append\<close> call).
\<close>

datatype frame =
    At_pass
  | At_set_running
  | At_read_start
  | At_while int
  | At_sleep_read int
  | At_sleep_write int
  | At_read_end int
  | At_append int int
  | At_set_completed
  | Returned

record world =
  obj :: injector
  heap :: store
  threads :: "frame list"
  wall_clock :: int

definition current_ms :: "world \<Rightarrow> int" where
  "current_ms w = wall_clock w"

definition entry_frame :: "cls \<Rightarrow> frame" where
  "entry_frame c = (case c of LoadInjector_cls \<Rightarrow> At_pass | _ \<Rightarrow> At_set_running)"

text \<open>
  \<open>inject()\<close>: a thread on \<open>self.inject_body\<close> is created, stored in
  \<open>self.inj_thread\<close> and started. There is no test in the method.
\<close>

definition inject :: "world \<Rightarrow> world" where
  "inject w =
     w\<lparr>obj := (obj w)\<lparr>inj_thread := Some (length (threads w))\<rparr>,
       threads := threads w @ [entry_frame (cls_of (obj w))]\<rparr>"

definition force_close :: "world \<Rightarrow> world" where
  "force_close w = w"

definition set_frame :: "nat \<Rightarrow> frame \<Rightarrow> world \<Rightarrow> world" where
  "set_frame i f w = w\<lparr>threads := (threads w)[i := f]\<rparr>"

text \<open>Thread \<open>i\<close> executes its next statement. A thread that has returned does nothing.\<close>

definition thread_step :: "nat \<Rightarrow> world \<Rightarrow> world" where
  "thread_step i w =
     (if i < length (threads w) then
        (case threads w ! i of
           At_pass \<Rightarrow> set_frame i Returned w
         | At_set_running \<Rightarrow> set_frame i At_read_start (w\<lparr>obj := (obj w)\<lparr>completed_flag := False\<rparr>\<rparr>)
         | At_read_start \<Rightarrow> set_frame i (At_while (current_ms w)) w
         | At_while s \<Rightarrow>
             if of_int (current_ms w - s) < num_val (duration_ms (obj w))
             then set_frame i (At_sleep_read s) w
             else set_frame i (At_read_end s) w
         | At_sleep_read s \<Rightarrow> set_frame i (At_sleep_write s) w
         | At_sleep_write s \<Rightarrow> set_frame i (At_while s) w
         | At_read_end s \<Rightarrow> set_frame i (At_append s (current_ms w)) w
         | At_append s e \<Rightarrow>
             set_frame i At_set_completed
               (w\<lparr>heap := list_append (injected_interval (obj w)) \<lparr>iv_start = s, iv_end = e\<rparr> (heap w)\<rparr>)
         | At_set_completed \<Rightarrow> set_frame i Returned (w\<lparr>obj := (obj w)\<lparr>completed_flag := True\<rparr>\<rparr>)
         | Returned \<Rightarrow> w)
      else w)"

text \<open>
  What can happen next: the caller calls \<open>inject()\<close> or \<open>force_close()\<close>, the
  scheduler runs a thread for one statement, or the wall clock comes to read a new value.
\<close>

datatype event = Call_inject | Call_force_close | Run nat | Tick int

fun step :: "event \<Rightarrow> world \<Rightarrow> world" where
  "step Call_inject w = inject w"
| "step Call_force_close w = force_close w"
| "step (Run i) w = thread_step i w"
| "step (Tick t) w = w\<lparr>wall_clock := t\<rparr>"

fun exec :: "event list \<Rightarrow> world \<Rightarrow> world" where
  "exec [] w = w"
| "exec (e # es) w = exec es (step e w)"

text \<open>The world right after the constructor call \<open>c(tg, d)\<close>, the clock reading \<open>t0\<close>.\<close>

definition boot :: "cls \<Rightarrow> string \<Rightarrow> number \<Rightarrow> store \<Rightarrow> int \<Rightarrow> world" where
  "boot c tg d h t0 =
     (let (inj, h') = LoadInjector_init c tg d h in
      \<lparr>obj = inj, heap = h', threads = [], wall_clock = t0\<rparr>)"

definition ledger :: "world \<Rightarrow> interval list" where
  "ledger w = deref (heap w) (get_injections (obj w))"

text \<open>The work bodies in progress: the threads that have not returned.\<close>

definition live :: "world \<Rightarrow> nat" where
  "live w = length (filter (\<lambda>f. f \<noteq> Returned) (threads w))"

text \<open>The wall clock is never set back during the events.\<close>

fun clock_monotone :: "int \<Rightarrow> event list \<Rightarrow> bool" where
  "clock_monotone t [] = True"
| "clock_monotone t (Tick t' # es) = (t \<le> t' \<and> clock_monotone t' es)"
| "clock_monotone t (e # es) = clock_monotone t es"

subsection \<open>One thread alone\<close>

text \<open>
  The events of one call of \<open>inject()\<close> whose thread \<open>i\<close> then runs with no other
  thread in between, the clock showing the readings of \<open>clock\<close> at the thread's calls
  of \<open>current_ms()\<close>: the run that \<open>inject_body\<close> above describes in one piece.
\<close>

fun loop_schedule :: "nat \<Rightarrow> int \<Rightarrow> number \<Rightarrow> int list \<Rightarrow> event list" where
  "loop_schedule i start_time d [] = []"
| "loop_schedule i start_time d (c # cs) =
     Tick c # Run i #
     (if of_int (c - start_time) < num_val d then Run i # Run i # loop_schedule i start_time d cs
      else (case cs of [] \<Rightarrow> [] | e # _ \<Rightarrow> [Tick e, Run i, Run i, Run i]))"

definition body_schedule :: "nat \<Rightarrow> number \<Rightarrow> int list \<Rightarrow> event list" where
  "body_schedule i d clock =
     (case clock of
        [] \<Rightarrow> [Run i]
      | start_time # cs \<Rightarrow> Run i # Tick start_time # Run i # loop_schedule i start_time d cs)"

subsection \<open>Assignments from outside and what callers observe\<close>

text \<open>
  \<open>self.valid = v\<close>: the assignment an overriding \<open>init()\<close> makes when its setup
  fails. No method of the module assigns the attribute after the constructor.
\<close>

definition set_valid :: "bool \<Rightarrow> world \<Rightarrow> world" where
  "set_valid v w = w\<lparr>obj := (obj w)\<lparr>valid := v\<rparr>\<rparr>"

text \<open>
  What the public methods return on an instance: \<open>is_valid()\<close>,
  \<open>is_injector_running()\<close>, the contents of the list \<open>get_injections()\<close> returns, and
  \<open>get_name()\<close>.
\<close>

definition observe ::
  "(real \<Rightarrow> string) \<Rightarrow> injector \<Rightarrow> store \<Rightarrow> bool \<times> bool \<times> interval list \<times> string" where
  "observe float_str self h =
     (is_valid self, is_injector_running self, deref h (get_injections self),
      get_name float_str self)"

subsection \<open>The bounds on a recorded interval, as stated\<close>

text \<open>
  When the body has returned, the last entry of the ledger is at least \<open>duration_ms\<close>
  long, and at most \<open>duration_ms\<close> plus the largest increment of a single iteration.
\<close>

definition claimed_bounds :: "int list \<Rightarrow> injector \<Rightarrow> store \<Rightarrow> bool" where
  "claimed_bounds clock self h =
     (case inject_body clock self h of
        None \<Rightarrow> True
      | Some (self', h', rest) \<Rightarrow>
          (let iv = last (deref h' (get_injections self'));
               chk = loop_checks (hd clock) (duration_ms self) (tl clock)
           in num_val (duration_ms self) \<le> of_int (iv_end iv - iv_start iv) \<and>
              of_int (iv_end iv - iv_start iv)
                \<le> num_val (duration_ms self) + of_int (largest_increment chk)))"

subsection \<open>Invariant of the threads\<close>

text \<open>
  A \<open>start_time\<close> a thread holds was read from the clock, so it is no later than the
  clock's reading now. A thread that has left the loop did so on a reading at least
  \<open>d\<close> past its \<open>start_time\<close>, and the two readings it holds for the \<open>append\<close> call
  are that far apart.
\<close>

definition frame_ok :: "number \<Rightarrow> int \<Rightarrow> frame \<Rightarrow> bool" where
  "frame_ok d t f =
     (case f of
        At_while s \<Rightarrow> s \<le> t
      | At_sleep_read s \<Rightarrow> s \<le> t
      | At_sleep_write s \<Rightarrow> s \<le> t
      | At_read_end s \<Rightarrow> s \<le> t \<and> num_val d \<le> of_int (t - s)
      | At_append s e \<Rightarrow> s \<le> e \<and> num_val d \<le> of_int (e - s)
      | _ \<Rightarrow> True)"

definition world_ok :: "world \<Rightarrow> bool" where
  "world_ok w =
     ((\<forall>f\<in>set (threads w). frame_ok (duration_ms (obj w)) (wall_clock w) f) \<and>
      (\<forall>iv\<in>set (ledger w).
         iv_start iv \<le> iv_end iv \<and>
         num_val (duration_ms (obj w)) \<le> of_int (iv_end iv - iv_start iv)))"

section \<open>Properties\<close>

subsection \<open>Construction\<close>

lemma str_int_500: "str_int 500 = ''500''"
  by (simp add: str_int_def str_nat.simps digit_char_def)

lemma str_int_examples:
  "str_int 0 = ''0'' \<and> str_int 7 = ''7'' \<and> str_int 1000 = ''1000'' \<and> str_int (- 42) = ''-42''"
  by (simp add: str_int_def str_nat.simps digit_char_def)

text \<open>\<open>str_int\<close> writes the decimal numeral.\<close>

lemma digit_char_cases:
  assumes "k < 10"
  shows "is_digit (digit_char k) \<and> digit_val (digit_char k) = k \<and> (digit_char k = CHR ''0'' \<longleftrightarrow> k = 0)"
proof -
  from assms have "k = 0 \<or> k = 1 \<or> k = 2 \<or> k = 3 \<or> k = 4 \<or> k = 5 \<or> k = 6 \<or> k = 7 \<or> k = 8 \<or> k = 9"
    by arith
  then show ?thesis
    by (elim disjE) (simp_all add: digit_char_def is_digit_def digit_val_def)
qed

lemma decimal_value_snoc: "decimal_value (ds @ [c]) = 10 * decimal_value ds + digit_val c"
  by (simp add: decimal_value_def)

lemma decimal_value_str_nat: "decimal_value (str_nat n) = n"
proof (induction n rule: str_nat.induct)
  case (1 n)
  show ?case
  proof (cases "n < 10")
    case True
    then show ?thesis
      by (simp add: str_nat.simps [of n] decimal_value_def digit_char_cases)
  next
    case False
    with 1 have "decimal_value (str_nat (n div 10)) = n div 10" by simp
    moreover have "digit_val (digit_char (n mod 10)) = n mod 10"
      by (simp add: digit_char_cases)
    ultimately show ?thesis
      using False by (simp add: str_nat.simps [of n] decimal_value_snoc)
  qed
qed

lemma str_nat_nonempty: "str_nat n \<noteq> []"
  by (simp add: str_nat.simps [of n])

lemma digits_str_nat: "list_all is_digit (str_nat n)"
proof (induction n rule: str_nat.induct)
  case (1 n)
  show ?case
  proof (cases "n < 10")
    case True
    then show ?thesis by (simp add: str_nat.simps [of n] digit_char_cases)
  next
    case False
    with 1 have "list_all is_digit (str_nat (n div 10))" by simp
    moreover have "is_digit (digit_char (n mod 10))" by (simp add: digit_char_cases)
    ultimately show ?thesis using False by (simp add: str_nat.simps [of n])
  qed
qed

lemma hd_str_nat: "str_nat n = ''0'' \<or> hd (str_nat n) \<noteq> CHR ''0''"
proof (induction n rule: str_nat.induct)
  case (1 n)
  show ?case
  proof (cases "n < 10")
    case True
    then have one: "str_nat n = [digit_char n]" by (simp add: str_nat.simps [of n])
    from True have "digit_char n = CHR ''0'' \<longleftrightarrow> n = 0" by (simp add: digit_char_cases)
    moreover have "digit_char 0 = CHR ''0''" by (simp add: digit_char_def)
    ultimately show ?thesis unfolding one by (cases "n = 0") simp_all
  next
    case False
    with 1 have ih: "str_nat (n div 10) = ''0'' \<or> hd (str_nat (n div 10)) \<noteq> CHR ''0''" by simp
    have "str_nat (n div 10) \<noteq> ''0''"
    proof
      assume zero: "str_nat (n div 10) = ''0''"
      have "decimal_value ''0'' = 0" by (simp add: decimal_value_def digit_val_def)
      with zero decimal_value_str_nat [of "n div 10"] have "n div 10 = 0" by simp
      with False show False by simp
    qed
    with ih have "hd (str_nat (n div 10)) \<noteq> CHR ''0''" by simp
    then show ?thesis
      using False str_nat_nonempty [of "n div 10"] by (simp add: str_nat.simps [of n])
  qed
qed

lemma canonical_str_nat: "canonical_digits (str_nat n)"
  using hd_str_nat [of n] by (simp add: canonical_digits_def str_nat_nonempty digits_str_nat)

lemma str_int_decimal: "decimal_numeral_of i (str_int i)"
  by (simp add: decimal_numeral_of_def str_int_def canonical_str_nat decimal_value_str_nat)

text \<open>No other string is the decimal numeral of the integer.\<close>

lemma foldl_decimal:
  "foldl (\<lambda>a c. 10 * a + digit_val c) a ds
     = a * 10 ^ length ds + foldl (\<lambda>a c. 10 * a + digit_val c) 0 ds"
proof (induction ds arbitrary: a)
  case Nil
  then show ?case by simp
next
  case (Cons c ds)
  have "foldl (\<lambda>a c. 10 * a + digit_val c) (10 * a + digit_val c) ds
      = (10 * a + digit_val c) * 10 ^ length ds + foldl (\<lambda>a c. 10 * a + digit_val c) 0 ds"
    by (rule Cons.IH)
  moreover have "foldl (\<lambda>a c. 10 * a + digit_val c) (digit_val c) ds
      = digit_val c * 10 ^ length ds + foldl (\<lambda>a c. 10 * a + digit_val c) 0 ds"
    by (rule Cons.IH)
  ultimately show ?case by (simp add: algebra_simps)
qed

lemma decimal_value_Cons:
  "decimal_value (c # ds) = digit_val c * 10 ^ length ds + decimal_value ds"
  using foldl_decimal [of "digit_val c" ds] by (simp add: decimal_value_def)

lemma is_digit_cases:
  assumes "is_digit c"
  shows "digit_val c < 10 \<and> digit_char (digit_val c) = c \<and> (c = CHR ''0'' \<or> 0 < digit_val c)"
proof -
  from assms have "c = CHR ''0'' \<or> c = CHR ''1'' \<or> c = CHR ''2'' \<or> c = CHR ''3'' \<or> c = CHR ''4'' \<or>
      c = CHR ''5'' \<or> c = CHR ''6'' \<or> c = CHR ''7'' \<or> c = CHR ''8'' \<or> c = CHR ''9''"
    by (simp add: is_digit_def)
  then show ?thesis
    by (elim disjE) (simp_all add: digit_val_def digit_char_def)
qed

lemma decimal_value_pos:
  assumes "ds \<noteq> []" and "is_digit (hd ds)" and "hd ds \<noteq> CHR ''0''"
  shows "0 < decimal_value ds"
proof -
  from assms(1) obtain c cs where ds: "ds = c # cs" by (cases ds) auto
  with assms have "0 < digit_val c" using is_digit_cases [of c] by simp
  then have "0 < digit_val c * 10 ^ length cs" by simp
  then show ?thesis unfolding ds decimal_value_Cons by simp
qed

lemma str_nat_decimal_value:
  "canonical_digits ds \<Longrightarrow> str_nat (decimal_value ds) = ds"
proof (induction ds rule: rev_induct)
  case Nil
  then show ?case by (simp add: canonical_digits_def)
next
  case (snoc c xs)
  from snoc.prems have dc: "is_digit c" and dxs: "list_all is_digit xs"
    by (simp_all add: canonical_digits_def)
  from dc have small: "digit_val c < 10" and same: "digit_char (digit_val c) = c"
    using is_digit_cases [of c] by simp_all
  show ?case
  proof (cases "xs = []")
    case True
    then have "decimal_value (xs @ [c]) = digit_val c" by (simp add: decimal_value_def)
    with small same True show ?thesis by (simp add: str_nat.simps [of "digit_val c"])
  next
    case False
    then have "xs @ [c] \<noteq> ''0''" by (cases xs) simp_all
    with snoc.prems False have hd: "hd xs \<noteq> CHR ''0''"
      by (simp add: canonical_digits_def)
    with False dxs have can: "canonical_digits xs" by (simp add: canonical_digits_def)
    from False dxs have dh: "is_digit (hd xs)" by (cases xs) simp_all
    from False dh hd have pos: "0 < decimal_value xs" by (rule decimal_value_pos)
    let ?n = "decimal_value (xs @ [c])"
    have n: "?n = 10 * decimal_value xs + digit_val c" by (rule decimal_value_snoc)
    with pos have big: "\<not> ?n < 10" by simp
    from n small have dv: "?n div 10 = decimal_value xs" and md: "?n mod 10 = digit_val c"
      by simp_all
    have "str_nat ?n = str_nat (?n div 10) @ [digit_char (?n mod 10)]"
      using big by (simp add: str_nat.simps [of ?n])
    also have "\<dots> = xs @ [c]"
      unfolding dv md using snoc.IH [OF can] same by simp
    finally show ?thesis .
  qed
qed

lemma decimal_numeral_unique:
  assumes "decimal_numeral_of i r"
  shows "r = str_int i"
proof (cases "i < 0")
  case True
  with assms have r: "r \<noteq> []" "hd r = CHR ''-''" and can: "canonical_digits (tl r)"
    and v: "int (decimal_value (tl r)) = - i"
    by (simp_all add: decimal_numeral_of_def)
  from v have "nat (- i) = decimal_value (tl r)" by simp
  with can have "str_nat (nat (- i)) = tl r" by (simp add: str_nat_decimal_value)
  with True r show ?thesis by (cases r) (simp_all add: str_int_def)
next
  case False
  with assms have can: "canonical_digits r" and v: "int (decimal_value r) = i"
    by (simp_all add: decimal_numeral_of_def)
  from v have "nat i = decimal_value r" by simp
  with can have "str_nat (nat i) = r" by (simp add: str_nat_decimal_value)
  with False show ?thesis by (simp add: str_int_def)
qed

lemma fst_LoadInjector_init:
  "fst (LoadInjector_init c tg d h) =
     \<lparr>cls_of = c, valid = True, tag = tg, duration_ms = d, inj_thread = None,
      completed_flag = True, injected_interval = next_ref h\<rparr>"
  by (simp add: LoadInjector_init_def new_list_def init_def)

lemma snd_LoadInjector_init:
  "snd (LoadInjector_init c tg d h) =
     h\<lparr>cells := (cells h)(next_ref h := []), next_ref := Suc (next_ref h)\<rparr>"
  by (simp add: LoadInjector_init_def new_list_def)

lemma boot_eq:
  "boot c tg d h t0 =
     \<lparr>obj = fst (LoadInjector_init c tg d h), heap = snd (LoadInjector_init c tg d h),
      threads = [], wall_clock = t0\<rparr>"
  by (simp add: boot_def split_beta)

text \<open>
  C7, as the code has it. \<open>get_name()\<close> returns
  \<open>"[" + tag + "]" + class name + "(d" + str(duration_ms) + ")"\<close>, the class name being
  \<open>SSDLoadInjector\<close> or \<open>RAMLoadInjector\<close>. For an int duration the part after
  \<open>(d\<close> is the one decimal numeral of the int, so tag \<open>x\<close> and duration \<open>500\<close> give
  \<open>[x]SSDLoadInjector(d500)\<close>; for a float duration it is what \<open>str\<close> returns on
  the float.
\<close>

theorem get_name_format:
  "(\<exists>!r. decimal_numeral_of i r) \<and>
   (\<exists>r. decimal_numeral_of i r \<and>
        get_name float_str (fst (SSDLoadInjector tg (PyInt i) h))
          = ''['' @ tg @ '']SSDLoadInjector(d'' @ r @ '')'' \<and>
        get_name float_str (fst (RAMLoadInjector tg (PyInt i) h))
          = ''['' @ tg @ '']RAMLoadInjector(d'' @ r @ '')'') \<and>
   get_name float_str (fst (SSDLoadInjector tg (PyFloat x) h))
     = ''['' @ tg @ '']SSDLoadInjector(d'' @ float_str x @ '')'' \<and>
   get_name float_str (fst (RAMLoadInjector tg (PyFloat x) h))
     = ''['' @ tg @ '']RAMLoadInjector(d'' @ float_str x @ '')'' \<and>
   get_name float_str (fst (SSDLoadInjector ''x'' (PyInt 500) h)) = ''[x]SSDLoadInjector(d500)'' \<and>
   get_name float_str (fst (RAMLoadInjector ''x'' (PyInt 500) h)) = ''[x]RAMLoadInjector(d500)''"
proof -
  have ints: "decimal_numeral_of i (str_int i) \<and>
        get_name float_str (fst (SSDLoadInjector tg (PyInt i) h))
          = ''['' @ tg @ '']SSDLoadInjector(d'' @ str_int i @ '')'' \<and>
        get_name float_str (fst (RAMLoadInjector tg (PyInt i) h))
          = ''['' @ tg @ '']RAMLoadInjector(d'' @ str_int i @ '')''"
    by (simp add: str_int_decimal get_name_def SSDLoadInjector_def RAMLoadInjector_def
        fst_LoadInjector_init)
  have floats: "get_name float_str (fst (SSDLoadInjector tg (PyFloat x) h))
       = ''['' @ tg @ '']SSDLoadInjector(d'' @ float_str x @ '')'' \<and>
     get_name float_str (fst (RAMLoadInjector tg (PyFloat x) h))
       = ''['' @ tg @ '']RAMLoadInjector(d'' @ float_str x @ '')''"
    by (simp add: get_name_def SSDLoadInjector_def RAMLoadInjector_def fst_LoadInjector_init)
  have example: "get_name float_str (fst (SSDLoadInjector ''x'' (PyInt 500) h)) = ''[x]SSDLoadInjector(d500)'' \<and>
     get_name float_str (fst (RAMLoadInjector ''x'' (PyInt 500) h)) = ''[x]RAMLoadInjector(d500)''"
    by (simp add: get_name_def SSDLoadInjector_def RAMLoadInjector_def fst_LoadInjector_init
        str_int_500)
  have "\<exists>!r. decimal_numeral_of i r"
  proof
    show "decimal_numeral_of i (str_int i)" by (rule str_int_decimal)
  next
    fix r assume "decimal_numeral_of i r"
    then show "r = str_int i" by (rule decimal_numeral_unique)
  qed
  with ints floats example show ?thesis by blast
qed

text \<open>
  As stated, C7 fails for a float duration: the float \<open>500.0\<close> has the value of the
  int \<open>500\<close>, and the name is \<open>[x]SSDLoadInjector(d500.0)\<close>, not
  \<open>[x]SSDLoadInjector(d500)\<close>.
\<close>

theorem get_name_float_counterexample:
  "num_val (PyFloat 500) = num_val (PyInt 500) \<and>
   float_str_whole 500 = ''500.0'' \<and>
   get_name float_str_whole (fst (SSDLoadInjector ''x'' (PyFloat 500) empty_store))
     = ''[x]SSDLoadInjector(d500.0)'' \<and>
   get_name float_str_whole (fst (SSDLoadInjector ''x'' (PyFloat 500) empty_store))
     \<noteq> ''[x]SSDLoadInjector(d500)''"
  by (simp add: get_name_def SSDLoadInjector_def fst_LoadInjector_init float_str_whole_def
      str_int_500)

text \<open>
  C8. The instance a variant's \<open>fromJSON\<close> builds from a job has the job's \<open>tag\<close> when
  the key is present and the empty string when it is not, and the job's \<open>duration_ms\<close>
  when the key is present and \<open>1000\<close> when it is not.
\<close>

theorem variant_fromJSON_fields:
  "(job_tag j = Some t \<longrightarrow> tag (fst (SSD_fromJSON j h)) = t \<and> tag (fst (RAM_fromJSON j h)) = t) \<and>
   (job_tag j = None \<longrightarrow> tag (fst (SSD_fromJSON j h)) = '''' \<and> tag (fst (RAM_fromJSON j h)) = '''') \<and>
   (job_duration_ms j = Some d \<longrightarrow>
      duration_ms (fst (SSD_fromJSON j h)) = d \<and> duration_ms (fst (RAM_fromJSON j h)) = d) \<and>
   (job_duration_ms j = None \<longrightarrow>
      duration_ms (fst (SSD_fromJSON j h)) = PyInt 1000 \<and>
      duration_ms (fst (RAM_fromJSON j h)) = PyInt 1000)"
  by (simp add: SSD_fromJSON_def RAM_fromJSON_def SSDLoadInjector_def RAMLoadInjector_def
      fst_LoadInjector_init)

theorem variant_fromJSON_fields_witness:
  "tag (fst (SSD_fromJSON \<lparr>job_type = Some ''SSD'', job_tag = Some ''t1'', job_duration_ms = Some (PyInt 200)\<rparr> empty_store)) = ''t1'' \<and>
   duration_ms (fst (RAM_fromJSON \<lparr>job_type = Some ''SSD'', job_tag = Some ''t1'', job_duration_ms = Some (PyInt 200)\<rparr> empty_store)) = PyInt 200 \<and>
   tag (fst (RAM_fromJSON \<lparr>job_type = Some ''Memory'', job_tag = None, job_duration_ms = None\<rparr> empty_store)) = '''' \<and>
   duration_ms (fst (SSD_fromJSON \<lparr>job_type = Some ''Memory'', job_tag = None, job_duration_ms = None\<rparr> empty_store)) = PyInt 1000"
  using variant_fromJSON_fields [of "\<lparr>job_type = Some ''SSD'', job_tag = Some ''t1'', job_duration_ms = Some (PyInt 200)\<rparr>" "''t1''" empty_store "PyInt 200"]
    variant_fromJSON_fields [of "\<lparr>job_type = Some ''Memory'', job_tag = None, job_duration_ms = None\<rparr>" "''''" empty_store "PyInt 0"]
  by simp

text \<open>
  C2. \<open>LoadInjector.fromJSON\<close> returns \<open>None\<close> for the job \<open>None\<close> and for a job with
  no \<open>type\<close> key; an \<open>SSDLoadInjector\<close> when the type is one of \<open>SSD\<close>, \<open>SSDUsage\<close>,
  \<open>SolidStateDrive\<close>; a \<open>RAMLoadInjector\<close> when it is one of \<open>RAM\<close>, \<open>RAMUsage\<close>,
  \<open>Memory\<close>; and \<open>None\<close> for every other type string. The test is membership of the
  string in the set, so the case of the letters counts.
\<close>

theorem fromJSON_resolution:
  "fst (fromJSON None h) = None \<and>
   (job_type j = None \<longrightarrow> fst (fromJSON (Some j) h) = None) \<and>
   (job_type j = Some t \<and> t \<in> {''SSD'', ''SSDUsage'', ''SolidStateDrive''} \<longrightarrow>
      (\<exists>inj. fst (fromJSON (Some j) h) = Some inj \<and> cls_of inj = SSDLoadInjector_cls \<and>
             inj = fst (SSD_fromJSON j h))) \<and>
   (job_type j = Some t \<and> t \<in> {''RAM'', ''RAMUsage'', ''Memory''} \<longrightarrow>
      (\<exists>inj. fst (fromJSON (Some j) h) = Some inj \<and> cls_of inj = RAMLoadInjector_cls \<and>
             inj = fst (RAM_fromJSON j h))) \<and>
   (job_type j = Some t \<and> t \<notin> {''SSD'', ''SSDUsage'', ''SolidStateDrive''} \<and>
      t \<notin> {''RAM'', ''RAMUsage'', ''Memory''} \<longrightarrow> fst (fromJSON (Some j) h) = None)"
proof -
  have ssd: "cls_of (fst (SSD_fromJSON j h)) = SSDLoadInjector_cls"
    by (simp add: SSD_fromJSON_def SSDLoadInjector_def fst_LoadInjector_init)
  have ram: "cls_of (fst (RAM_fromJSON j h)) = RAMLoadInjector_cls"
    by (simp add: RAM_fromJSON_def RAMLoadInjector_def fst_LoadInjector_init)
  show ?thesis
    using ssd ram by (auto simp: fromJSON_def split_beta)
qed

theorem fromJSON_resolution_witness:
  "fst (fromJSON (Some \<lparr>job_type = Some ''Memory'', job_tag = Some ''t1'', job_duration_ms = Some (PyInt 200)\<rparr>) empty_store)
     = Some \<lparr>cls_of = RAMLoadInjector_cls, valid = True, tag = ''t1'', duration_ms = PyInt 200,
             inj_thread = None, completed_flag = True, injected_interval = 0\<rparr> \<and>
   fst (fromJSON (Some \<lparr>job_type = Some ''SSDUsage'', job_tag = None, job_duration_ms = None\<rparr>) empty_store)
     = Some \<lparr>cls_of = SSDLoadInjector_cls, valid = True, tag = '''', duration_ms = PyInt 1000,
             inj_thread = None, completed_flag = True, injected_interval = 0\<rparr> \<and>
   fst (fromJSON (Some \<lparr>job_type = Some ''Unknown'', job_tag = None, job_duration_ms = None\<rparr>) empty_store) = None \<and>
   fst (fromJSON (Some \<lparr>job_type = Some ''ssd'', job_tag = None, job_duration_ms = None\<rparr>) empty_store) = None \<and>
   fst (fromJSON (Some \<lparr>job_type = None, job_tag = Some ''t1'', job_duration_ms = None\<rparr>) empty_store) = None"
  using
    fromJSON_resolution [of empty_store "\<lparr>job_type = Some ''Memory'', job_tag = Some ''t1'', job_duration_ms = Some (PyInt 200)\<rparr>" "''Memory''"]
    fromJSON_resolution [of empty_store "\<lparr>job_type = Some ''SSDUsage'', job_tag = None, job_duration_ms = None\<rparr>" "''SSDUsage''"]
    fromJSON_resolution [of empty_store "\<lparr>job_type = Some ''Unknown'', job_tag = None, job_duration_ms = None\<rparr>" "''Unknown''"]
    fromJSON_resolution [of empty_store "\<lparr>job_type = Some ''ssd'', job_tag = None, job_duration_ms = None\<rparr>" "''ssd''"]
    fromJSON_resolution [of empty_store "\<lparr>job_type = None, job_tag = Some ''t1'', job_duration_ms = None\<rparr>" "''''"]
  by (simp add: SSD_fromJSON_def RAM_fromJSON_def SSDLoadInjector_def RAMLoadInjector_def
      fst_LoadInjector_init empty_store_def)

subsection \<open>Before the first \<open>inject()\<close>\<close>

lemma thread_step_no_threads: "threads w = [] \<Longrightarrow> thread_step i w = w"
  by (simp add: thread_step_def)

lemma exec_without_inject:
  "Call_inject \<notin> set evs \<Longrightarrow> threads w = [] \<Longrightarrow>
   exec evs w = w\<lparr>wall_clock := wall_clock (exec evs w)\<rparr>"
proof (induction evs arbitrary: w)
  case Nil
  then show ?case by simp
next
  case (Cons e es)
  show ?case
  proof (cases e)
    case Call_inject
    with Cons.prems show ?thesis by simp
  next
    case Call_force_close
    with Cons show ?thesis by (simp add: force_close_def)
  next
    case (Run i)
    with Cons show ?thesis by (simp add: thread_step_no_threads)
  next
    case (Tick t)
    have "exec es (w\<lparr>wall_clock := t\<rparr>) =
      (w\<lparr>wall_clock := t\<rparr>)\<lparr>wall_clock := wall_clock (exec es (w\<lparr>wall_clock := t\<rparr>))\<rparr>"
      using Cons.prems by (intro Cons.IH) simp_all
    with Tick show ?thesis by simp
  qed
qed

text \<open>
  C9. On an instance just constructed, and as long as \<open>inject()\<close> has not been called
  (whatever else happens: \<open>force_close()\<close>, the clock moving, the scheduler running),
  the list \<open>get_injections()\<close> returns is empty.
\<close>

theorem get_injections_before_inject:
  assumes "Call_inject \<notin> set evs"
  shows "deref (heap (exec evs (boot c tg d h t0))) (get_injections (obj (exec evs (boot c tg d h t0)))) = []"
proof -
  let ?w = "boot c tg d h t0"
  have "threads ?w = []" by (simp add: boot_eq)
  with assms have "exec evs ?w = ?w\<lparr>wall_clock := wall_clock (exec evs ?w)\<rparr>"
    by (rule exec_without_inject)
  then have "heap (exec evs ?w) = heap ?w" and "obj (exec evs ?w) = obj ?w"
    by (metis world.select_convs world.surjective world.update_convs)+
  then show ?thesis
    by (simp add: boot_eq deref_def get_injections_def fst_LoadInjector_init snd_LoadInjector_init)
qed

theorem get_injections_before_inject_witness:
  "deref (heap (exec [Tick 7, Run 0, Call_force_close] (boot SSDLoadInjector_cls ''x'' (PyInt 500) empty_store 0)))
     (get_injections (obj (exec [Tick 7, Run 0, Call_force_close] (boot SSDLoadInjector_cls ''x'' (PyInt 500) empty_store 0)))) = [] \<and>
   deref (heap (exec [] (boot RAMLoadInjector_cls ''x'' (PyInt 500) empty_store 0)))
     (get_injections (obj (exec [] (boot RAMLoadInjector_cls ''x'' (PyInt 500) empty_store 0)))) = []"
  using get_injections_before_inject [of "[Tick 7, Run 0, Call_force_close]" SSDLoadInjector_cls "''x''" "PyInt 500" empty_store 0]
    get_injections_before_inject [of "[]" RAMLoadInjector_cls "''x''" "PyInt 500" empty_store 0]
  by simp

subsection \<open>The interval a work body records\<close>

lemma while_loop_Some:
  "while_loop s d cs = Some rest \<Longrightarrow>
   \<exists>pre c. cs = pre @ c # rest \<and> (\<forall>x\<in>set pre. of_int (x - s) < num_val d) \<and>
           num_val d \<le> of_int (c - s) \<and> loop_checks s d cs = pre @ [c]"
proof (induction cs)
  case Nil
  then show ?case by simp
next
  case (Cons a cs)
  show ?case
  proof (cases "of_int (a - s) < num_val d")
    case True
    with Cons.prems have "while_loop s d cs = Some rest" by simp
    from Cons.IH [OF this] obtain pre c where
      "cs = pre @ c # rest" "\<forall>x\<in>set pre. of_int (x - s) < num_val d"
      "num_val d \<le> of_int (c - s)" "loop_checks s d cs = pre @ [c]"
      by blast
    with True have "a # cs = (a # pre) @ c # rest \<and>
      (\<forall>x\<in>set (a # pre). of_int (x - s) < num_val d) \<and> num_val d \<le> of_int (c - s) \<and>
      loop_checks s d (a # cs) = (a # pre) @ [c]"
      by simp
    then show ?thesis by blast
  next
    case False
    with Cons.prems have "a # cs = [] @ a # rest \<and>
      (\<forall>x\<in>set []. of_int (x - s) < num_val d) \<and> num_val d \<le> of_int (a - s) \<and>
      loop_checks s d (a # cs) = [] @ [a]"
      by simp
    then show ?thesis by blast
  qed
qed

text \<open>The loop ends as soon as a reading is \<open>d\<close> or more past \<open>start_time\<close>.\<close>

lemma while_loop_returns:
  "\<exists>c\<in>set cs. num_val d \<le> of_int (c - s) \<Longrightarrow> \<exists>rest. while_loop s d cs = Some rest"
  by (induction cs) auto

lemma fold_max_ge_init: "(a::int) \<le> fold max xs a"
  by (induction xs arbitrary: a) (auto intro: order_trans [OF max.cobounded2])

lemma fold_max_ge_elem: "(x::int) \<in> set xs \<Longrightarrow> x \<le> fold max xs a"
proof (induction xs arbitrary: a)
  case Nil
  then show ?case by simp
next
  case (Cons y ys)
  show ?case
  proof (cases "x = y")
    case True
    have "max y a \<le> fold max ys (max y a)" by (rule fold_max_ge_init)
    with True show ?thesis by simp
  next
    case False
    with Cons show ?thesis by simp
  qed
qed

lemma iteration_increments_snoc:
  "pre \<noteq> [] \<Longrightarrow> iteration_increments (pre @ [c]) = iteration_increments pre @ [c - last pre]"
proof (induction pre)
  case Nil
  then show ?case by simp
next
  case (Cons a pre)
  show ?case
  proof (cases pre)
    case Nil
    then show ?thesis by (simp add: iteration_increments_def)
  next
    case (Cons b pre')
    with Cons.IH show ?thesis by (simp add: iteration_increments_def)
  qed
qed

lemma last_increment_le_largest:
  "pre \<noteq> [] \<Longrightarrow> c - last pre \<le> largest_increment (pre @ [c])"
  unfolding largest_increment_def
  by (rule fold_max_ge_elem) (simp add: iteration_increments_snoc)

lemma SSD_inject_body_Some:
  assumes "SSD_inject_body clock self h = Some (self', h', rest)"
  shows "\<exists>s pre c e. clock = s # pre @ c # e # rest \<and>
           (\<forall>x\<in>set pre. of_int (x - s) < num_val (duration_ms self)) \<and>
           num_val (duration_ms self) \<le> of_int (c - s) \<and>
           loop_checks s (duration_ms self) (tl clock) = pre @ [c] \<and>
           self' = self\<lparr>completed_flag := True\<rparr> \<and>
           h' = list_append (injected_interval self) \<lparr>iv_start = s, iv_end = e\<rparr> h"
proof -
  from assms obtain s cs where clock: "clock = s # cs"
    by (cases clock) (simp_all add: SSD_inject_body_def)
  from assms clock obtain e where
    wl: "while_loop s (duration_ms self) cs = Some (e # rest)"
    and res: "self' = self\<lparr>completed_flag := True\<rparr>"
      "h' = list_append (injected_interval self) \<lparr>iv_start = s, iv_end = e\<rparr> h"
    by (auto simp: SSD_inject_body_def Let_def split: option.splits list.splits)
  from while_loop_Some [OF wl] obtain pre c where
    "cs = pre @ c # e # rest" "\<forall>x\<in>set pre. of_int (x - s) < num_val (duration_ms self)"
    "num_val (duration_ms self) \<le> of_int (c - s)"
    "loop_checks s (duration_ms self) cs = pre @ [c]"
    by blast
  with clock res show ?thesis by simp
qed

text \<open>The two variants run the same statements.\<close>

lemma RAM_inject_body_eq: "RAM_inject_body = SSD_inject_body"
  by (intro ext) (simp add: RAM_inject_body_def SSD_inject_body_def)

text \<open>
  The body returns once the clock has passed \<open>start_time + duration_ms\<close> and is read
  once more.
\<close>

lemma inject_body_returns:
  assumes "\<exists>c\<in>set (butlast cs). num_val (duration_ms self) \<le> of_int (c - s)"
  shows "\<exists>r. inject_body (s # cs) self h = Some r"
proof -
  from assms obtain c where c: "c \<in> set (butlast cs)" "num_val (duration_ms self) \<le> of_int (c - s)"
    by blast
  from c(1) have "c \<in> set cs" by (rule in_set_butlastD)
  with c(2) obtain rest where rest: "while_loop s (duration_ms self) cs = Some rest"
    using while_loop_returns by blast
  from while_loop_Some [OF rest] obtain pre c' where
    cs: "cs = pre @ c' # rest" and pre: "\<forall>x\<in>set pre. of_int (x - s) < num_val (duration_ms self)"
    by blast
  have "rest \<noteq> []"
  proof
    assume "rest = []"
    with cs have "butlast cs = pre" by simp
    with c pre show False by auto
  qed
  then obtain e rest' where "rest = e # rest'" by (cases rest) auto
  with rest show ?thesis
    by (cases "cls_of self") (simp_all add: inject_body_def SSD_inject_body_def RAM_inject_body_def)
qed

lemmas body_simps =
  inject_body_def SSD_inject_body_def RAM_inject_body_def SSDLoadInjector_def
  RAMLoadInjector_def fst_LoadInjector_init snd_LoadInjector_init empty_store_def
  list_append_def deref_def get_injections_def

text \<open>
  C1, as the code has it. The work body of a variant with \<open>duration_ms \<ge> 0\<close> has
  returned, the clock never having been read lower than before. Then the entry it
  appended is the last of the ledger, the instance is not running, and
  \<open>end - start \<ge> duration_ms\<close>. From above, \<open>end - start\<close> is at most \<open>duration_ms\<close>
  plus the largest increment of one iteration, plus what the clock advanced between the
  reading of \<open>start_time\<close> and the loop's first test, plus what it advanced between the
  loop's last test and the reading taken for \<open>end\<close>: these two readings are calls of
  \<open>current_ms()\<close> of their own, outside every iteration.
\<close>

theorem inject_body_interval:
  assumes run: "inject_body clock self h = Some (self', h', rest)"
    and variant: "cls_of self \<noteq> LoadInjector_cls"
    and mono: "sorted clock"
    and nonneg: "0 \<le> num_val (duration_ms self)"
  shows "\<exists>start_time chk e.
           clock = start_time # chk @ e # rest \<and>
           chk = loop_checks start_time (duration_ms self) (tl clock) \<and> chk \<noteq> [] \<and>
           deref h' (get_injections self') =
             deref h (get_injections self) @ [\<lparr>iv_start = start_time, iv_end = e\<rparr>] \<and>
           \<not> is_injector_running self' \<and>
           num_val (duration_ms self) \<le> of_int (e - start_time) \<and>
           of_int (e - start_time)
             \<le> num_val (duration_ms self)
               + of_int (largest_increment chk + (hd chk - start_time) + (e - last chk))"
proof -
  from run variant have "SSD_inject_body clock self h = Some (self', h', rest)"
    by (cases "cls_of self") (simp_all add: inject_body_def RAM_inject_body_eq)
  from SSD_inject_body_Some [OF this] obtain s pre c e where
    clock: "clock = s # pre @ c # e # rest"
    and pre: "\<forall>x\<in>set pre. of_int (x - s) < num_val (duration_ms self)"
    and exit: "num_val (duration_ms self) \<le> of_int (c - s)"
    and chk: "loop_checks s (duration_ms self) (tl clock) = pre @ [c]"
    and self': "self' = self\<lparr>completed_flag := True\<rparr>"
    and h': "h' = list_append (injected_interval self) \<lparr>iv_start = s, iv_end = e\<rparr> h"
    by blast
  from mono clock have ce: "c \<le> e" and sc: "s \<le> c" and spre: "\<forall>x\<in>set pre. s \<le> x"
    by (auto simp: sorted_append)
  have upper: "of_int (e - s) \<le> num_val (duration_ms self)
      + of_int (largest_increment (pre @ [c]) + (hd (pre @ [c]) - s) + (e - last (pre @ [c])))"
  proof (cases pre)
    case Nil
    with nonneg show ?thesis by (simp add: largest_increment_def iteration_increments_def)
  next
    case (Cons a pre')
    then have ne: "pre \<noteq> []" by simp
    then have "last pre \<in> set pre" by simp
    with pre have before: "of_int (last pre - s) < num_val (duration_ms self)" by blast
    have inc: "c - last pre \<le> largest_increment (pre @ [c])"
      using ne by (rule last_increment_le_largest)
    have first: "s \<le> hd (pre @ [c])" using spre Cons by simp
    have "e - s = (last pre - s) + (c - last pre) + (e - c)" by simp
    also have "\<dots> \<le> (last pre - s) + (largest_increment (pre @ [c]) + (hd (pre @ [c]) - s) + (e - c))"
      using inc first by simp
    finally have "(of_int (e - s) :: real) \<le>
        of_int ((last pre - s) + (largest_increment (pre @ [c]) + (hd (pre @ [c]) - s) + (e - c)))"
      by (simp only: of_int_le_iff)
    with before show ?thesis by simp
  qed
  have ledger: "deref h' (get_injections self') =
      deref h (get_injections self) @ [\<lparr>iv_start = s, iv_end = e\<rparr>]"
    by (simp add: self' h' deref_def get_injections_def list_append_def)
  have "\<not> is_injector_running self'"
    by (simp add: self' is_injector_running_def)
  moreover have "num_val (duration_ms self) \<le> of_int (e - s)"
  proof -
    from ce have "(of_int (c - s) :: real) \<le> of_int (e - s)" by simp
    with exit show ?thesis by simp
  qed
  ultimately have "clock = s # (pre @ [c]) @ e # rest \<and>
           (pre @ [c]) = loop_checks s (duration_ms self) (tl clock) \<and> (pre @ [c]) \<noteq> [] \<and>
           deref h' (get_injections self') =
             deref h (get_injections self) @ [\<lparr>iv_start = s, iv_end = e\<rparr>] \<and>
           \<not> is_injector_running self' \<and>
           num_val (duration_ms self) \<le> of_int (e - s) \<and>
           of_int (e - s) \<le> num_val (duration_ms self)
             + of_int (largest_increment (pre @ [c]) + (hd (pre @ [c]) - s) + (e - last (pre @ [c])))"
    using clock chk ledger upper by simp
  then show ?thesis by blast
qed

theorem inject_body_interval_witness:
  "inject_body [0, 9, 19, 21] (fst (SSDLoadInjector ''x'' (PyInt 10) empty_store)) (snd (SSDLoadInjector ''x'' (PyInt 10) empty_store))
     = Some (fst (SSDLoadInjector ''x'' (PyInt 10) empty_store),
             list_append 0 \<lparr>iv_start = 0, iv_end = 21\<rparr> (snd (SSDLoadInjector ''x'' (PyInt 10) empty_store)), []) \<and>
   sorted [0, 9, 19, 21 :: int] \<and>
   (\<exists>start_time chk e.
      [0, 9, 19, 21] = start_time # chk @ e # [] \<and>
      chk = loop_checks start_time (PyInt 10) [9, 19, 21] \<and> chk \<noteq> [] \<and>
      deref (list_append 0 \<lparr>iv_start = 0, iv_end = 21\<rparr> (snd (SSDLoadInjector ''x'' (PyInt 10) empty_store))) 0
        = [\<lparr>iv_start = start_time, iv_end = e\<rparr>] \<and>
      (10 :: real) \<le> of_int (e - start_time) \<and>
      (of_int (e - start_time) :: real)
        \<le> 10 + of_int (largest_increment chk + (hd chk - start_time) + (e - last chk)))"
proof -
  let ?self = "fst (SSDLoadInjector ''x'' (PyInt 10) empty_store)"
  let ?h = "snd (SSDLoadInjector ''x'' (PyInt 10) empty_store)"
  have run: "inject_body [0, 9, 19, 21] ?self ?h
     = Some (?self, list_append 0 \<lparr>iv_start = 0, iv_end = 21\<rparr> ?h, [])"
    by (simp add: body_simps)
  have variant: "cls_of ?self \<noteq> LoadInjector_cls" by (simp add: body_simps)
  have mono: "sorted [0, 9, 19, 21 :: int]" by simp
  have nonneg: "0 \<le> num_val (duration_ms ?self)" by (simp add: body_simps)
  have d: "duration_ms ?self = PyInt 10" by (simp add: body_simps)
  have r: "get_injections ?self = 0" by (simp add: body_simps)
  have l: "deref ?h 0 = []" by (simp add: body_simps)
  from inject_body_interval [OF run variant mono nonneg]
  show ?thesis using run mono unfolding d r l by simp
qed

text \<open>
  As stated, the upper bound fails. With \<open>duration_ms = 10\<close> and the readings \<open>0\<close>
  (start), \<open>9\<close> and \<open>29\<close> (the loop's two tests, with one iteration of 20 ms between
  them, as long as two sleeps of at most 10 ms each are meant to last) and \<open>32\<close> (the
  reading for \<open>end\<close>), the entry is 32 ms long, more than \<open>10 + 20\<close>. With
  \<open>duration_ms = 0\<close> and the readings \<open>0\<close>, \<open>1\<close>, \<open>1\<close> no iteration runs and the
  entry is 1 ms long.
\<close>

theorem claimed_bounds_counterexample:
  "sorted [0, 9, 29, 32 :: int] \<and>
   inject_body [0, 9, 29, 32] (fst (SSDLoadInjector ''x'' (PyInt 10) empty_store)) (snd (SSDLoadInjector ''x'' (PyInt 10) empty_store))
     = Some (fst (SSDLoadInjector ''x'' (PyInt 10) empty_store),
             list_append 0 \<lparr>iv_start = 0, iv_end = 32\<rparr> (snd (SSDLoadInjector ''x'' (PyInt 10) empty_store)), []) \<and>
   loop_checks 0 (PyInt 10) [9, 29, 32] = [9, 29] \<and>
   largest_increment [9, 29] = 20 \<and>
   \<not> claimed_bounds [0, 9, 29, 32] (fst (SSDLoadInjector ''x'' (PyInt 10) empty_store)) (snd (SSDLoadInjector ''x'' (PyInt 10) empty_store)) \<and>
   \<not> claimed_bounds [0, 1, 1] (fst (RAMLoadInjector ''x'' (PyInt 0) empty_store)) (snd (RAMLoadInjector ''x'' (PyInt 0) empty_store))"
  by (simp add: body_simps claimed_bounds_def largest_increment_def iteration_increments_def)

subsection \<open>Concrete runs\<close>

lemmas run_simps =
  boot_eq fst_LoadInjector_init snd_LoadInjector_init empty_store_def inject_def
  thread_step_def set_frame_def current_ms_def entry_frame_def list_append_def ledger_def
  deref_def get_injections_def live_def is_injector_running_def force_close_def

text \<open>
  Two calls of \<open>inject()\<close> on a new instance with \<open>duration_ms = 10\<close>, the second one
  5 ms after the first thread has read its \<open>start_time\<close>. Both threads run their
  bodies, and the ledger ends with the windows \<open>0..10\<close> and \<open>5..15\<close>.
\<close>

lemma overlap_run:
  "ledger (exec [Call_inject, Run 0, Run 0, Call_inject, Tick 5, Run 1, Run 1, Tick 10,
       Run 0, Run 0, Run 0, Run 0, Tick 15, Run 1, Run 1, Run 1, Run 1]
            (boot SSDLoadInjector_cls ''x'' (PyInt 10) empty_store 0)) =
     [\<lparr>iv_start = 0, iv_end = 10\<rparr>, \<lparr>iv_start = 5, iv_end = 15\<rparr>]"
  by (simp add: run_simps)

subsection \<open>The ledger in every reachable state\<close>

lemma frame_ok_mono: "frame_ok d t f \<Longrightarrow> t \<le> t' \<Longrightarrow> frame_ok d t' f"
  by (cases f) (simp_all add: frame_ok_def)

lemma ledger_set_frame [simp]: "ledger (set_frame i f w) = ledger w"
  by (simp add: ledger_def set_frame_def)

lemma wall_clock_set_frame [simp]: "wall_clock (set_frame i f w) = wall_clock w"
  by (simp add: set_frame_def)

lemma threads_set_frame [simp]: "threads (set_frame i f w) = (threads w)[i := f]"
  by (simp add: set_frame_def)

lemma frames_update_ok:
  assumes "\<forall>g\<in>set fs. frame_ok d t g" and "frame_ok d t f"
  shows "\<forall>g\<in>set (fs[i := f]). frame_ok d t g"
proof
  fix g assume g: "g \<in> set (fs[i := f])"
  have "set (fs[i := f]) \<subseteq> insert f (set fs)" by (rule set_update_subset_insert)
  with g have "g = f \<or> g \<in> set fs" by blast
  then show "frame_ok d t g"
  proof
    assume "g = f"
    with assms(2) show ?thesis by simp
  next
    assume "g \<in> set fs"
    with assms(1) show ?thesis by simp
  qed
qed

lemma ledger_thread_step:
  "ledger (thread_step i w) = ledger w \<or>
   (\<exists>s e. i < length (threads w) \<and> threads w ! i = At_append s e \<and>
          ledger (thread_step i w) = ledger w @ [\<lparr>iv_start = s, iv_end = e\<rparr>])"
proof (cases "i < length (threads w)")
  case False
  then show ?thesis by (simp add: thread_step_def)
next
  case True
  then show ?thesis
    by (cases "threads w ! i")
      (simp_all add: thread_step_def ledger_def get_injections_def deref_def list_append_def
        set_frame_def)
qed

text \<open>The frame a thread moves to keeps the invariant, the clock standing still.\<close>

lemma threads_thread_step:
  assumes "i < length (threads w)"
    and "frame_ok (duration_ms (obj w)) (wall_clock w) (threads w ! i)"
  shows "\<exists>f. threads (thread_step i w) = (threads w)[i := f] \<and>
             frame_ok (duration_ms (obj w)) (wall_clock w) f"
proof (cases "threads w ! i")
  case Returned
  have "(threads w)[i := threads w ! i] = threads w" by (rule list_update_id)
  with Returned have "threads (thread_step i w) = (threads w)[i := Returned]"
    using assms(1) by (simp add: thread_step_def)
  then show ?thesis by (simp add: frame_ok_def exI [of _ Returned])
next
  case (At_while s)
  show ?thesis
  proof (cases "of_int (wall_clock w - s) < num_val (duration_ms (obj w))")
    case True
    with At_while have "threads (thread_step i w) = (threads w)[i := At_sleep_read s]"
      using assms(1) by (simp add: thread_step_def current_ms_def)
    moreover have "frame_ok (duration_ms (obj w)) (wall_clock w) (At_sleep_read s)"
      using assms(2) At_while by (simp add: frame_ok_def)
    ultimately show ?thesis by blast
  next
    case False
    with At_while have "threads (thread_step i w) = (threads w)[i := At_read_end s]"
      using assms(1) by (simp add: thread_step_def current_ms_def)
    moreover have "frame_ok (duration_ms (obj w)) (wall_clock w) (At_read_end s)"
      using assms(2) At_while False by (simp add: frame_ok_def)
    ultimately show ?thesis by blast
  qed
next
  case At_pass
  then have "threads (thread_step i w) = (threads w)[i := Returned]"
    using assms(1) by (simp add: thread_step_def)
  then show ?thesis by (simp add: frame_ok_def exI [of _ Returned])
next
  case At_set_running
  then have "threads (thread_step i w) = (threads w)[i := At_read_start]"
    using assms(1) by (simp add: thread_step_def)
  then show ?thesis by (simp add: frame_ok_def exI [of _ At_read_start])
next
  case At_read_start
  then have "threads (thread_step i w) = (threads w)[i := At_while (wall_clock w)]"
    using assms(1) by (simp add: thread_step_def current_ms_def)
  then show ?thesis by (simp add: frame_ok_def exI [of _ "At_while (wall_clock w)"])
next
  case (At_sleep_read s)
  then have "threads (thread_step i w) = (threads w)[i := At_sleep_write s]"
    using assms(1) by (simp add: thread_step_def)
  moreover have "frame_ok (duration_ms (obj w)) (wall_clock w) (At_sleep_write s)"
    using assms(2) At_sleep_read by (simp add: frame_ok_def)
  ultimately show ?thesis by blast
next
  case (At_sleep_write s)
  then have "threads (thread_step i w) = (threads w)[i := At_while s]"
    using assms(1) by (simp add: thread_step_def)
  moreover have "frame_ok (duration_ms (obj w)) (wall_clock w) (At_while s)"
    using assms(2) At_sleep_write by (simp add: frame_ok_def)
  ultimately show ?thesis by blast
next
  case (At_read_end s)
  then have "threads (thread_step i w) = (threads w)[i := At_append s (wall_clock w)]"
    using assms(1) by (simp add: thread_step_def current_ms_def)
  moreover have "frame_ok (duration_ms (obj w)) (wall_clock w) (At_append s (wall_clock w))"
    using assms(2) At_read_end by (simp add: frame_ok_def)
  ultimately show ?thesis by blast
next
  case (At_append s e)
  then have "threads (thread_step i w) = (threads w)[i := At_set_completed]"
    using assms(1) by (simp add: thread_step_def)
  then show ?thesis by (simp add: frame_ok_def exI [of _ At_set_completed])
next
  case At_set_completed
  then have "threads (thread_step i w) = (threads w)[i := Returned]"
    using assms(1) by (simp add: thread_step_def)
  then show ?thesis by (simp add: frame_ok_def exI [of _ Returned])
qed

lemma wall_clock_thread_step [simp]: "wall_clock (thread_step i w) = wall_clock w"
proof (cases "i < length (threads w)")
  case True
  then show ?thesis
    by (cases "threads w ! i") (simp_all add: thread_step_def)
next
  case False
  then show ?thesis by (simp add: thread_step_def)
qed

lemma duration_ms_thread_step [simp]: "duration_ms (obj (thread_step i w)) = duration_ms (obj w)"
proof (cases "i < length (threads w)")
  case True
  then show ?thesis
    by (cases "threads w ! i") (simp_all add: thread_step_def set_frame_def)
next
  case False
  then show ?thesis by (simp add: thread_step_def)
qed

lemma duration_ms_step [simp]: "duration_ms (obj (step e w)) = duration_ms (obj w)"
  by (cases e) (simp_all add: inject_def force_close_def)

lemma duration_ms_exec [simp]: "duration_ms (obj (exec evs w)) = duration_ms (obj w)"
  by (induction evs arbitrary: w) simp_all

lemma thread_step_ok:
  assumes "world_ok w"
  shows "world_ok (thread_step i w)"
proof (cases "i < length (threads w)")
  case False
  with assms show ?thesis by (simp add: thread_step_def)
next
  case True
  let ?d = "duration_ms (obj w)"
  from assms have fr: "\<forall>g\<in>set (threads w). frame_ok ?d (wall_clock w) g"
    and led: "\<forall>iv\<in>set (ledger w).
        iv_start iv \<le> iv_end iv \<and> num_val ?d \<le> of_int (iv_end iv - iv_start iv)"
    by (simp_all add: world_ok_def)
  from True have here: "frame_ok ?d (wall_clock w) (threads w ! i)"
    using fr nth_mem by blast
  from threads_thread_step [OF True here]
  obtain f where f: "threads (thread_step i w) = (threads w)[i := f]" "frame_ok ?d (wall_clock w) f"
    by blast
  have "\<forall>g\<in>set ((threads w)[i := f]). frame_ok ?d (wall_clock w) g"
    using fr f(2) by (rule frames_update_ok)
  then have frames: "\<forall>g\<in>set (threads (thread_step i w)).
      frame_ok (duration_ms (obj (thread_step i w))) (wall_clock (thread_step i w)) g"
    by (simp add: f(1))
  have "\<forall>iv\<in>set (ledger (thread_step i w)).
      iv_start iv \<le> iv_end iv \<and> num_val ?d \<le> of_int (iv_end iv - iv_start iv)"
  proof (cases "ledger (thread_step i w) = ledger w")
    case True
    with led show ?thesis by simp
  next
    case False
    with ledger_thread_step [of i w] obtain s e where
      "threads w ! i = At_append s e"
      "ledger (thread_step i w) = ledger w @ [\<lparr>iv_start = s, iv_end = e\<rparr>]"
      by blast
    with led here show ?thesis by (simp add: frame_ok_def)
  qed
  then have "\<forall>iv\<in>set (ledger (thread_step i w)).
      iv_start iv \<le> iv_end iv \<and>
      num_val (duration_ms (obj (thread_step i w))) \<le> of_int (iv_end iv - iv_start iv)"
    by simp
  with frames show ?thesis unfolding world_ok_def by blast
qed

lemma inject_ok: "world_ok w \<Longrightarrow> world_ok (inject w)"
proof -
  assume ok: "world_ok w"
  have led: "ledger (inject w) = ledger w"
    by (simp add: inject_def ledger_def get_injections_def)
  have new: "frame_ok (duration_ms (obj w)) (wall_clock w) (entry_frame (cls_of (obj w)))"
    by (cases "cls_of (obj w)") (simp_all add: entry_frame_def frame_ok_def)
  have "threads (inject w) = threads w @ [entry_frame (cls_of (obj w))]"
    "wall_clock (inject w) = wall_clock w" "duration_ms (obj (inject w)) = duration_ms (obj w)"
    by (simp_all add: inject_def)
  with ok led new show ?thesis by (simp add: world_ok_def)
qed

lemma step_ok:
  assumes "world_ok w" and "clock_monotone (wall_clock w) [e]"
  shows "world_ok (step e w)"
proof (cases e)
  case Call_inject
  with assms(1) show ?thesis by (simp add: inject_ok)
next
  case Call_force_close
  with assms(1) show ?thesis by (simp add: force_close_def)
next
  case (Run i)
  with assms(1) show ?thesis by (simp add: thread_step_ok)
next
  case (Tick t)
  with assms(2) have le: "wall_clock w \<le> t" by simp
  from assms(1) have "\<forall>f\<in>set (threads w). frame_ok (duration_ms (obj w)) t f"
    unfolding world_ok_def using le frame_ok_mono by blast
  with assms(1) Tick show ?thesis by (simp add: world_ok_def ledger_def)
qed

lemma wall_clock_step: "wall_clock (step e w) = (case e of Tick t \<Rightarrow> t | _ \<Rightarrow> wall_clock w)"
  by (cases e) (simp_all add: inject_def force_close_def)

lemma exec_ok:
  "world_ok w \<Longrightarrow> clock_monotone (wall_clock w) evs \<Longrightarrow> world_ok (exec evs w)"
proof (induction evs arbitrary: w)
  case Nil
  then show ?case by simp
next
  case (Cons e es)
  have one: "clock_monotone (wall_clock w) [e]"
    using Cons.prems(2) by (cases e) simp_all
  have rest: "clock_monotone (wall_clock (step e w)) es"
    unfolding wall_clock_step using Cons.prems(2) by (cases e) simp_all
  have "world_ok (step e w)" using Cons.prems(1) one by (rule step_ok)
  then have "world_ok (exec es (step e w))" using rest by (rule Cons.IH)
  then show ?case by simp
qed

lemma boot_ok: "world_ok (boot c tg d h t0)"
  by (simp add: world_ok_def boot_eq ledger_def deref_def get_injections_def
      fst_LoadInjector_init snd_LoadInjector_init)

text \<open>
  Whatever the interleaving and however many threads run, no entry is shorter than
  \<open>duration_ms\<close> when the clock is never set back: a loop is only left on a reading
  \<open>duration_ms\<close> or more past its thread's \<open>start_time\<close>.
\<close>

lemma ledger_entries_long_enough:
  assumes "clock_monotone t0 evs"
  shows "\<forall>iv\<in>set (ledger (exec evs (boot c tg d h t0))).
           num_val d \<le> of_int (iv_end iv - iv_start iv)"
proof -
  have "wall_clock (boot c tg d h t0) = t0" by (simp add: boot_eq)
  with assms have "world_ok (exec evs (boot c tg d h t0))"
    by (intro exec_ok boot_ok) simp
  moreover have "duration_ms (obj (exec evs (boot c tg d h t0))) = d"
    by (simp add: boot_eq fst_LoadInjector_init)
  ultimately show ?thesis by (simp add: world_ok_def)
qed







subsection \<open>\<open>inject()\<close> has no guard\<close>

lemma entry_frame_live: "entry_frame c \<noteq> Returned"
  by (cases c) (simp_all add: entry_frame_def)

text \<open>
  C3, as the code has it. \<open>inject()\<close> tests nothing: in every state, running or not,
  it creates and starts one more thread on the work body and stores it in
  \<open>inj_thread\<close>, so the number of bodies in progress grows by one. The ledger and the
  running flag are as before the call.
\<close>

theorem inject_always_spawns:
  "live (inject w) = Suc (live w) \<and>
   threads (inject w) = threads w @ [entry_frame (cls_of (obj w))] \<and>
   inj_thread (obj (inject w)) = Some (length (threads w)) \<and>
   is_injector_running (obj (inject w)) = is_injector_running (obj w) \<and>
   ledger (inject w) = ledger w"
  by (simp add: live_def inject_def entry_frame_live is_injector_running_def ledger_def
      get_injections_def)

text \<open>
  As stated, C3 fails. After \<open>inject()\<close> and the first statement of the body the
  instance is running, with one body in progress. A second \<open>inject()\<close> changes the
  state and two bodies are in progress. Run to their ends with the clock moving
  forward, they leave the overlapping windows \<open>0..10\<close> and \<open>5..15\<close> in the ledger.
\<close>

theorem inject_while_running_counterexample:
  "is_injector_running (obj (exec [Call_inject, Run 0] (boot SSDLoadInjector_cls ''x'' (PyInt 10) empty_store 0))) \<and>
   live (exec [Call_inject, Run 0] (boot SSDLoadInjector_cls ''x'' (PyInt 10) empty_store 0)) = 1 \<and>
   inject (exec [Call_inject, Run 0] (boot SSDLoadInjector_cls ''x'' (PyInt 10) empty_store 0)) \<noteq> (exec [Call_inject, Run 0] (boot SSDLoadInjector_cls ''x'' (PyInt 10) empty_store 0)) \<and>
   live (inject (exec [Call_inject, Run 0] (boot SSDLoadInjector_cls ''x'' (PyInt 10) empty_store 0))) = 2 \<and>
   clock_monotone 0 [Call_inject, Run 0, Run 0, Call_inject, Tick 5, Run 1, Run 1, Tick 10,
       Run 0, Run 0, Run 0, Run 0, Tick 15, Run 1, Run 1, Run 1, Run 1] \<and>
   ledger (exec [Call_inject, Run 0, Run 0, Call_inject, Tick 5, Run 1, Run 1, Tick 10,
       Run 0, Run 0, Run 0, Run 0, Tick 15, Run 1, Run 1, Run 1, Run 1]
            (boot SSDLoadInjector_cls ''x'' (PyInt 10) empty_store 0)) =
     [\<lparr>iv_start = 0, iv_end = 10\<rparr>, \<lparr>iv_start = 5, iv_end = 15\<rparr>]"
proof -
  have w1: "(exec [Call_inject, Run 0] (boot SSDLoadInjector_cls ''x'' (PyInt 10) empty_store 0)) =
     \<lparr>obj = \<lparr>cls_of = SSDLoadInjector_cls, valid = True, tag = ''x'', duration_ms = PyInt 10,
             inj_thread = Some 0, completed_flag = False, injected_interval = 0\<rparr>,
      heap = \<lparr>cells = (\<lambda>_. [])(0 := []), next_ref = Suc 0\<rparr>,
      threads = [At_read_start], wall_clock = 0\<rparr>"
    by (simp add: run_simps)
  show ?thesis
    unfolding w1 using overlap_run by (simp add: run_simps)
qed

subsection \<open>The list \<open>get_injections()\<close> returns\<close>

lemma injected_interval_step [simp]: "injected_interval (obj (step e w)) = injected_interval (obj w)"
proof (cases e)
  case (Run i)
  show ?thesis
  proof (cases "i < length (threads w)")
    case True
    then show ?thesis using Run
      by (cases "threads w ! i") (simp_all add: thread_step_def set_frame_def)
  next
    case False
    then show ?thesis using Run by (simp add: thread_step_def)
  qed
qed (simp_all add: inject_def force_close_def)

lemma injected_interval_exec [simp]:
  "injected_interval (obj (exec evs w)) = injected_interval (obj w)"
  by (induction evs arbitrary: w) simp_all

text \<open>
  C4, as the code has it. \<open>get_injections()\<close> returns the reference held in
  \<open>self.injected_interval\<close>: the ledger's own list, not a copy. What is read through
  it at the call is the ledger at that time. An \<open>append\<close> or a clearing that the caller
  does through it is an \<open>append\<close> to, or a clearing of, the ledger; and entries the
  threads append later are read through a reference returned earlier.
\<close>

theorem get_injections_is_the_ledger:
  "get_injections self = injected_interval self \<and>
   deref (heap w) (get_injections (obj w)) = ledger w \<and>
   deref (list_append (get_injections self) x h) (injected_interval self)
     = deref h (injected_interval self) @ [x] \<and>
   deref (list_clear (get_injections self) h) (injected_interval self) = [] \<and>
   deref (heap (exec evs w)) (get_injections (obj w)) = ledger (exec evs w)"
  by (simp add: get_injections_def deref_def list_append_def list_clear_def ledger_def)

text \<open>
  As stated, C4 fails: on a new instance the ledger is empty; the caller appends an
  entry to the list \<open>get_injections()\<close> returned, and the ledger holds that entry.
\<close>

theorem get_injections_snapshot_counterexample:
  "deref (snd (SSDLoadInjector ''x'' (PyInt 10) empty_store)) (injected_interval (fst (SSDLoadInjector ''x'' (PyInt 10) empty_store))) = [] \<and>
   deref (list_append (get_injections (fst (SSDLoadInjector ''x'' (PyInt 10) empty_store))) \<lparr>iv_start = 1, iv_end = 2\<rparr> (snd (SSDLoadInjector ''x'' (PyInt 10) empty_store)))
         (injected_interval (fst (SSDLoadInjector ''x'' (PyInt 10) empty_store)))
     = [\<lparr>iv_start = 1, iv_end = 2\<rparr>] \<and>
   deref (list_append (get_injections (fst (SSDLoadInjector ''x'' (PyInt 10) empty_store))) \<lparr>iv_start = 1, iv_end = 2\<rparr> (snd (SSDLoadInjector ''x'' (PyInt 10) empty_store)))
         (injected_interval (fst (SSDLoadInjector ''x'' (PyInt 10) empty_store)))
     \<noteq> deref (snd (SSDLoadInjector ''x'' (PyInt 10) empty_store)) (injected_interval (fst (SSDLoadInjector ''x'' (PyInt 10) empty_store)))"
  by (simp add: body_simps)

subsection \<open>The validity flag\<close>

lemma step_set_valid: "step e (set_valid v w) = set_valid v (step e w)"
proof (cases e)
  case (Run i)
  show ?thesis
  proof (cases "i < length (threads w)")
    case True
    then show ?thesis using Run
      by (cases "threads w ! i")
        (simp_all add: thread_step_def set_frame_def set_valid_def current_ms_def)
  next
    case False
    then show ?thesis using Run by (simp add: thread_step_def set_valid_def)
  qed
qed (simp_all add: inject_def force_close_def set_valid_def)

lemma exec_set_valid: "exec evs (set_valid v w) = set_valid v (exec evs w)"
  by (induction evs arbitrary: w) (simp_all add: step_set_valid)

text \<open>
  C5, as the code has it. No method reads \<open>self.valid\<close> but \<open>is_valid()\<close>: whatever
  the flag, \<open>inject()\<close>, the threads and the clock do the same, the flag staying as it
  is. On an instance with \<open>is_valid() = false\<close>, \<open>inject()\<close> returns normally and has
  started one more work body. Every instance the constructor builds has
  \<open>is_valid() = true\<close>.
\<close>

theorem valid_flag_is_never_read:
  "exec evs (set_valid v w) = set_valid v (exec evs w) \<and>
   \<not> is_valid (obj (set_valid False w)) \<and>
   live (inject (set_valid False w)) = Suc (live w) \<and>
   ledger (exec evs (set_valid False w)) = ledger (exec evs w) \<and>
   is_valid (fst (LoadInjector_init c tg d h))"
proof -
  have run: "exec evs (set_valid v w) = set_valid v (exec evs w)"
    by (rule exec_set_valid)
  have flag: "\<not> is_valid (obj (set_valid False w))"
    by (simp add: is_valid_def set_valid_def)
  have spawn: "live (inject (set_valid False w)) = Suc (live w)"
    by (simp add: live_def inject_def set_valid_def entry_frame_live)
  have "ledger (set_valid False (exec evs w)) = ledger (exec evs w)"
    by (simp add: ledger_def set_valid_def get_injections_def)
  then have led: "ledger (exec evs (set_valid False w)) = ledger (exec evs w)"
    by (simp only: exec_set_valid)
  have built: "is_valid (fst (LoadInjector_init c tg d h))"
    by (simp add: is_valid_def fst_LoadInjector_init)
  from run flag spawn led built show ?thesis by blast
qed

text \<open>
  As stated, C5 fails: on an instance whose flag is false, \<open>inject()\<close> changes the
  state, a body is in progress, and run to its end it appends the window \<open>0..10\<close>.
\<close>

theorem inject_on_invalid_counterexample:
  "\<not> is_valid (obj (set_valid False (boot SSDLoadInjector_cls ''x'' (PyInt 10) empty_store 0))) \<and>
   inject (set_valid False (boot SSDLoadInjector_cls ''x'' (PyInt 10) empty_store 0)) \<noteq> (set_valid False (boot SSDLoadInjector_cls ''x'' (PyInt 10) empty_store 0)) \<and>
   live (inject (set_valid False (boot SSDLoadInjector_cls ''x'' (PyInt 10) empty_store 0))) = 1 \<and>
   ledger (set_valid False (boot SSDLoadInjector_cls ''x'' (PyInt 10) empty_store 0)) = [] \<and>
   ledger (exec [Call_inject, Run 0, Run 0, Tick 10, Run 0, Run 0, Run 0, Run 0] (set_valid False (boot SSDLoadInjector_cls ''x'' (PyInt 10) empty_store 0))) = [\<lparr>iv_start = 0, iv_end = 10\<rparr>]"
  by (simp add: run_simps set_valid_def is_valid_def)

subsection \<open>Never started and completed\<close>

text \<open>
  C10, as the code has it. A new instance has \<open>completed_flag = True\<close>, so
  \<open>is_injector_running()\<close> is false, and stays so as long as \<open>inject()\<close> is not called.
  After a work body of a variant has run to its end on it, \<open>is_injector_running()\<close>,
  \<open>is_valid()\<close> and \<open>get_name()\<close> return what they returned before the start; the
  list \<open>get_injections()\<close> returns does not: it was empty and now holds the run's entry.
\<close>

theorem never_started_and_completed:
  "completed_flag (fst (LoadInjector_init c tg d h)) \<and>
   \<not> is_injector_running (fst (LoadInjector_init c tg d h)) \<and>
   (Call_inject \<notin> set evs \<longrightarrow> \<not> is_injector_running (obj (exec evs (boot c tg d h t0)))) \<and>
   (c \<noteq> LoadInjector_cls \<and>
    inject_body clock (fst (LoadInjector_init c tg d h)) (snd (LoadInjector_init c tg d h))
      = Some (self', h', rest) \<longrightarrow>
      is_injector_running self' = is_injector_running (fst (LoadInjector_init c tg d h)) \<and>
      is_valid self' = is_valid (fst (LoadInjector_init c tg d h)) \<and>
      get_name float_str self' = get_name float_str (fst (LoadInjector_init c tg d h)) \<and>
      deref (snd (LoadInjector_init c tg d h)) (get_injections (fst (LoadInjector_init c tg d h))) = [] \<and>
      deref h' (get_injections self') \<noteq> [])"
proof -
  let ?self = "fst (LoadInjector_init c tg d h)"
  let ?h = "snd (LoadInjector_init c tg d h)"
  have flag: "completed_flag ?self" by (simp add: fst_LoadInjector_init)
  have idle: "Call_inject \<notin> set evs \<longrightarrow> \<not> is_injector_running (obj (exec evs (boot c tg d h t0)))"
  proof
    assume no: "Call_inject \<notin> set evs"
    have "threads (boot c tg d h t0) = []" by (simp add: boot_eq)
    with no have "exec evs (boot c tg d h t0) =
        (boot c tg d h t0)\<lparr>wall_clock := wall_clock (exec evs (boot c tg d h t0))\<rparr>"
      by (rule exec_without_inject)
    then have "obj (exec evs (boot c tg d h t0)) = obj (boot c tg d h t0)"
      by (metis world.select_convs(1) world.surjective world.update_convs(4))
    then show "\<not> is_injector_running (obj (exec evs (boot c tg d h t0)))"
      by (simp add: boot_eq is_injector_running_def fst_LoadInjector_init)
  qed
  have finished: "c \<noteq> LoadInjector_cls \<and> inject_body clock ?self ?h = Some (self', h', rest) \<longrightarrow>
      is_injector_running self' = is_injector_running ?self \<and>
      is_valid self' = is_valid ?self \<and> get_name float_str self' = get_name float_str ?self \<and>
      deref ?h (get_injections ?self) = [] \<and> deref h' (get_injections self') \<noteq> []"
  proof
    assume a: "c \<noteq> LoadInjector_cls \<and> inject_body clock ?self ?h = Some (self', h', rest)"
    then have "SSD_inject_body clock ?self ?h = Some (self', h', rest)"
      by (cases c) (simp_all add: inject_body_def RAM_inject_body_eq fst_LoadInjector_init)
    from SSD_inject_body_Some [OF this] obtain s e where
      self': "self' = ?self\<lparr>completed_flag := True\<rparr>"
      and h': "h' = list_append (injected_interval ?self) \<lparr>iv_start = s, iv_end = e\<rparr> ?h"
      by blast
    from self' flag have same: "self' = ?self" by simp
    have "deref h' (get_injections self') \<noteq> []"
      unfolding same h' by (simp add: deref_def get_injections_def list_append_def)
    moreover have "deref ?h (get_injections ?self) = []"
      by (simp add: deref_def get_injections_def fst_LoadInjector_init snd_LoadInjector_init)
    ultimately show "is_injector_running self' = is_injector_running ?self \<and>
      is_valid self' = is_valid ?self \<and> get_name float_str self' = get_name float_str ?self \<and>
      deref ?h (get_injections ?self) = [] \<and> deref h' (get_injections self') \<noteq> []"
      using same by simp
  qed
  from flag idle finished show ?thesis by (simp add: is_injector_running_def)
qed

theorem never_started_and_completed_witness:
  "\<not> is_injector_running (obj (exec [Tick 3, Run 0, Call_force_close] (boot SSDLoadInjector_cls ''x'' (PyInt 10) empty_store 0))) \<and>
   inject_body [0, 10, 10] (fst (LoadInjector_init SSDLoadInjector_cls ''x'' (PyInt 10) empty_store))
       (snd (LoadInjector_init SSDLoadInjector_cls ''x'' (PyInt 10) empty_store))
     = Some (fst (LoadInjector_init SSDLoadInjector_cls ''x'' (PyInt 10) empty_store),
             list_append 0 \<lparr>iv_start = 0, iv_end = 10\<rparr> (snd (LoadInjector_init SSDLoadInjector_cls ''x'' (PyInt 10) empty_store)),
             []) \<and>
   deref (list_append 0 \<lparr>iv_start = 0, iv_end = 10\<rparr> (snd (LoadInjector_init SSDLoadInjector_cls ''x'' (PyInt 10) empty_store)))
         (get_injections (fst (LoadInjector_init SSDLoadInjector_cls ''x'' (PyInt 10) empty_store))) \<noteq> [] \<and>
   deref (snd (LoadInjector_init SSDLoadInjector_cls ''x'' (PyInt 10) empty_store))
         (get_injections (fst (LoadInjector_init SSDLoadInjector_cls ''x'' (PyInt 10) empty_store))) = []"
proof -
  let ?self = "fst (LoadInjector_init SSDLoadInjector_cls ''x'' (PyInt 10) empty_store)"
  let ?h = "snd (LoadInjector_init SSDLoadInjector_cls ''x'' (PyInt 10) empty_store)"
  have run: "inject_body [0, 10, 10] ?self ?h
      = Some (?self, list_append 0 \<lparr>iv_start = 0, iv_end = 10\<rparr> ?h, [])"
    by (simp add: body_simps)
  have no: "Call_inject \<notin> set [Tick 3, Run 0, Call_force_close]" by simp
  from never_started_and_completed [of SSDLoadInjector_cls "''x''" "PyInt 10" empty_store
      "[Tick 3, Run 0, Call_force_close]" 0 "[0, 10, 10]" ?self
      "list_append 0 \<lparr>iv_start = 0, iv_end = 10\<rparr> ?h" "[]"]
  show ?thesis using run no by simp
qed

text \<open>
  As stated, the second half of C10 fails: the public methods tell an instance that
  was never started from one whose run has completed. Both have
  \<open>is_injector_running() = false\<close>, but what the methods return differs, in the list
  of \<open>get_injections()\<close>.
\<close>

theorem observe_counterexample:
  "is_injector_running (obj (boot SSDLoadInjector_cls ''x'' (PyInt 10) empty_store 0)) = False \<and>
   is_injector_running (obj (exec [Call_inject, Run 0, Run 0, Tick 10, Run 0, Run 0, Run 0, Run 0] (boot SSDLoadInjector_cls ''x'' (PyInt 10) empty_store 0))) = False \<and>
   live (exec [Call_inject, Run 0, Run 0, Tick 10, Run 0, Run 0, Run 0, Run 0] (boot SSDLoadInjector_cls ''x'' (PyInt 10) empty_store 0)) = 0 \<and>
   deref (heap (boot SSDLoadInjector_cls ''x'' (PyInt 10) empty_store 0)) (get_injections (obj (boot SSDLoadInjector_cls ''x'' (PyInt 10) empty_store 0))) = [] \<and>
   deref (heap (exec [Call_inject, Run 0, Run 0, Tick 10, Run 0, Run 0, Run 0, Run 0] (boot SSDLoadInjector_cls ''x'' (PyInt 10) empty_store 0))) (get_injections (obj (exec [Call_inject, Run 0, Run 0, Tick 10, Run 0, Run 0, Run 0, Run 0] (boot SSDLoadInjector_cls ''x'' (PyInt 10) empty_store 0)))) = [\<lparr>iv_start = 0, iv_end = 10\<rparr>] \<and>
   observe float_str_whole (obj (exec [Call_inject, Run 0, Run 0, Tick 10, Run 0, Run 0, Run 0, Run 0] (boot SSDLoadInjector_cls ''x'' (PyInt 10) empty_store 0))) (heap (exec [Call_inject, Run 0, Run 0, Tick 10, Run 0, Run 0, Run 0, Run 0] (boot SSDLoadInjector_cls ''x'' (PyInt 10) empty_store 0))) \<noteq> observe float_str_whole (obj (boot SSDLoadInjector_cls ''x'' (PyInt 10) empty_store 0)) (heap (boot SSDLoadInjector_cls ''x'' (PyInt 10) empty_store 0))"
  by (simp add: run_simps observe_def)

subsection \<open>\<open>inject()\<close> and the uninterrupted work body\<close>

lemma exec_loop_schedule:
  assumes "while_loop s (duration_ms (obj w)) cs = Some (e # rest)"
    and "i < length (threads w)" and "threads w ! i = At_while s"
  shows "exec (loop_schedule i s (duration_ms (obj w)) cs) w =
           \<lparr>obj = (obj w)\<lparr>completed_flag := True\<rparr>,
            heap = list_append (injected_interval (obj w)) \<lparr>iv_start = s, iv_end = e\<rparr> (heap w),
            threads = (threads w)[i := Returned],
            wall_clock = e\<rparr>"
  using assms
proof (induction cs arbitrary: w)
  case Nil
  then show ?case by simp
next
  case (Cons c cs)
  let ?d = "duration_ms (obj w)"
  show ?case
  proof (cases "of_int (c - s) < num_val ?d")
    case True
    let ?w' = "w\<lparr>wall_clock := c\<rparr>"
    have same: "(threads w)[i := At_while s] = threads w"
      using Cons.prems(3) list_update_id [of "threads w" i] by simp
    have round: "exec [Tick c, Run i, Run i, Run i] w = ?w'"
      using True Cons.prems(2,3) same
      by (simp add: thread_step_def set_frame_def current_ms_def)
    have "while_loop s (duration_ms (obj ?w')) cs = Some (e # rest)"
      using True Cons.prems(1) by simp
    moreover have "i < length (threads ?w')" "threads ?w' ! i = At_while s"
      using Cons.prems(2,3) by simp_all
    ultimately have "exec (loop_schedule i s (duration_ms (obj ?w')) cs) ?w' =
           \<lparr>obj = (obj ?w')\<lparr>completed_flag := True\<rparr>,
            heap = list_append (injected_interval (obj ?w')) \<lparr>iv_start = s, iv_end = e\<rparr> (heap ?w'),
            threads = (threads ?w')[i := Returned],
            wall_clock = e\<rparr>"
      by (rule Cons.IH)
    moreover have "exec (loop_schedule i s ?d (c # cs)) w = exec (loop_schedule i s ?d cs) ?w'"
      using True round by simp
    ultimately show ?thesis by simp
  next
    case False
    with Cons.prems(1) have cs: "cs = e # rest" by simp
    from False cs Cons.prems(2,3) show ?thesis
      by (simp add: thread_step_def set_frame_def current_ms_def)
  qed
qed

text \<open>
  \<open>inject()\<close> followed by its thread running alone leaves the instance, the store and
  the thread exactly as \<open>inject_body\<close> says, with \<open>inj_thread\<close> set.
\<close>

lemma inject_then_body:
  assumes run: "inject_body clock (obj w) (heap w) = Some (self', h', rest)"
    and variant: "cls_of (obj w) \<noteq> LoadInjector_cls"
  shows "\<exists>e. exec (Call_inject # body_schedule (length (threads w)) (duration_ms (obj w)) clock) w =
           \<lparr>obj = self'\<lparr>inj_thread := Some (length (threads w))\<rparr>, heap = h',
            threads = threads w @ [Returned], wall_clock = e\<rparr>"
proof -
  let ?i = "length (threads w)"
  let ?d = "duration_ms (obj w)"
  from run variant have ssd: "SSD_inject_body clock (obj w) (heap w) = Some (self', h', rest)"
    by (cases "cls_of (obj w)")
      (simp_all add: inject_body_def RAM_inject_body_def SSD_inject_body_def)
  then obtain s cs where clock: "clock = s # cs"
    by (cases clock) (simp_all add: SSD_inject_body_def)
  from ssd clock obtain e where
    wl: "while_loop s ?d cs = Some (e # rest)"
    and self': "self' = (obj w)\<lparr>completed_flag := True\<rparr>"
    and h': "h' = list_append (injected_interval (obj w)) \<lparr>iv_start = s, iv_end = e\<rparr> (heap w)"
    by (auto simp: SSD_inject_body_def Let_def split: option.splits list.splits)
  let ?w1 = "\<lparr>obj = (obj w)\<lparr>inj_thread := Some ?i, completed_flag := False\<rparr>, heap = heap w,
              threads = threads w @ [At_while s], wall_clock = s\<rparr>"
  have entry: "entry_frame (cls_of (obj w)) = At_set_running"
    using variant by (cases "cls_of (obj w)") (simp_all add: entry_frame_def)
  have start: "exec [Call_inject, Run ?i, Tick s, Run ?i] w = ?w1"
    by (simp add: inject_def entry thread_step_def set_frame_def current_ms_def)
  have "exec (loop_schedule ?i s (duration_ms (obj ?w1)) cs) ?w1 =
           \<lparr>obj = (obj ?w1)\<lparr>completed_flag := True\<rparr>,
            heap = list_append (injected_interval (obj ?w1)) \<lparr>iv_start = s, iv_end = e\<rparr> (heap ?w1),
            threads = (threads ?w1)[?i := Returned],
            wall_clock = e\<rparr>"
    using wl by (intro exec_loop_schedule) simp_all
  then have loop: "exec (loop_schedule ?i s ?d cs) ?w1 =
           \<lparr>obj = self'\<lparr>inj_thread := Some ?i\<rparr>, heap = h',
            threads = threads w @ [Returned], wall_clock = e\<rparr>"
    by (simp add: self' h')
  have "exec (Call_inject # body_schedule ?i ?d clock) w =
        exec (loop_schedule ?i s ?d cs) (exec [Call_inject, Run ?i, Tick s, Run ?i] w)"
    by (simp add: body_schedule_def clock)
  with start loop show ?thesis by (simp only: exI)
qed

end
